theory Spec2Isabelle
  imports Main "HOL-Library.Word"
begin

section \<open>The DLX matrix: nodes, headers and the heap (dlx.h)\<close>

text \<open>
  The three memory objects of a DLX matrix are the root header, the array of column
  headers and the array of data nodes. A pointer is \<open>NULL\<close>, the address of the
  root, \<open>headers + i\<close> or \<open>nodes + i\<close>. A \<open>struct dlx_hnode\<close> starts with a
  \<open>struct dlx_node\<close>, and the source casts freely between the two, so one pointer type
  serves both.
\<close>

datatype ptr = Null | Root | Hdr nat | Nd nat

text \<open>
  The heap holds every field of every node, one function per field. \<open>row_id\<close> is the
  \<open>void *\<close> that the builder points at \<open>row_off + i\<close> (here the index \<open>i\<close>);
  \<open>node_count\<close> is a \<open>size_t\<close>, taken as 64 bits wide; \<open>col_id\<close> is the
  header's \<open>id\<close>, which no function of dlx.c writes.
\<close>

record dlx_heap =
  row_id :: "ptr \<Rightarrow> nat option"
  left :: "ptr \<Rightarrow> ptr"
  right :: "ptr \<Rightarrow> ptr"
  up :: "ptr \<Rightarrow> ptr"
  down :: "ptr \<Rightarrow> ptr"
  header :: "ptr \<Rightarrow> ptr"
  node_count :: "ptr \<Rightarrow> 64 word"
  col_id :: "ptr \<Rightarrow> nat option"

text \<open>Memory as \<open>calloc\<close> returns it: every pointer \<open>NULL\<close>, every count 0.\<close>

definition calloc_heap :: dlx_heap where
  "calloc_heap = \<lparr> row_id = (\<lambda>_. None), left = (\<lambda>_. Null), right = (\<lambda>_. Null),
     up = (\<lambda>_. Null), down = (\<lambda>_. Null), header = (\<lambda>_. Null),
     node_count = (\<lambda>_. 0), col_id = (\<lambda>_. None) \<rparr>"

text \<open>Pointer arithmetic inside the header array and inside the node array.\<close>

fun ptr_add :: "ptr \<Rightarrow> nat \<Rightarrow> ptr" where
  "ptr_add (Hdr a) i = Hdr (a + i)"
| "ptr_add (Nd a) i = Nd (a + i)"
| "ptr_add p i = p"

fun ptr_sub :: "ptr \<Rightarrow> nat \<Rightarrow> ptr" where
  "ptr_sub (Hdr a) i = Hdr (a - i)"
| "ptr_sub (Nd a) i = Nd (a - i)"
| "ptr_sub p i = p"

section \<open>Link primitives (dlx.c)\<close>

text \<open>
  \<open>remove_lr\<close> and \<open>remove_ud\<close> are two statements each; the second reads the heap
  the first has written.
\<close>

definition remove_lr :: "ptr \<Rightarrow> dlx_heap \<Rightarrow> dlx_heap" where
  "remove_lr n s =
     (let s1 = s\<lparr>right := (right s)(left s n := right s n)\<rparr>
      in s1\<lparr>left := (left s1)(right s1 n := left s1 n)\<rparr>)"

definition remove_ud :: "ptr \<Rightarrow> dlx_heap \<Rightarrow> dlx_heap" where
  "remove_ud n s =
     (let s1 = s\<lparr>down := (down s)(up s n := down s n)\<rparr>
      in s1\<lparr>up := (up s1)(down s1 n := up s1 n)\<rparr>)"

text \<open>
  \<open>insert_lr\<close> is the single expression \<open>n->left->right = n->right->left = n\<close>: both
  addresses are computed from the heap as it is, then \<open>n\<close> is stored in both.
\<close>

definition insert_lr :: "ptr \<Rightarrow> dlx_heap \<Rightarrow> dlx_heap" where
  "insert_lr n s = s\<lparr>left := (left s)(right s n := n), right := (right s)(left s n := n)\<rparr>"

definition insert_ud :: "ptr \<Rightarrow> dlx_heap \<Rightarrow> dlx_heap" where
  "insert_ud n s = s\<lparr>up := (up s)(down s n := n), down := (down s)(up s n := n)\<rparr>"

definition is_removed_ud :: "ptr \<Rightarrow> dlx_heap \<Rightarrow> bool" where
  "is_removed_ud n s = (down s (up s n) \<noteq> n)"

definition append_node_to_column :: "ptr \<Rightarrow> ptr \<Rightarrow> dlx_heap \<Rightarrow> dlx_heap" where
  "append_node_to_column n c s =
     (let s1 = s\<lparr>header := (header s)(n := c)\<rparr>;
          s2 = s1\<lparr>up := (up s1)(n := up s1 c)\<rparr>;
          s3 = s2\<lparr>down := (down s2)(n := c)\<rparr>;
          s4 = insert_ud n s3
      in s4\<lparr>node_count := (node_count s4)(c := node_count s4 c + 1)\<rparr>)"

section \<open>Cover and uncover\<close>

text \<open>
  One step of cover's inner loop body: \<open>remove_ud(j); j->header->node_count--\<close>,
  and of uncover's: \<open>j->header->node_count++; insert_ud(j)\<close>.
\<close>

definition cover_node :: "ptr \<Rightarrow> dlx_heap \<Rightarrow> dlx_heap" where
  "cover_node j s =
     (let s1 = remove_ud j s
      in s1\<lparr>node_count := (node_count s1)(header s1 j := node_count s1 (header s1 j) - 1)\<rparr>)"

definition uncover_node :: "ptr \<Rightarrow> dlx_heap \<Rightarrow> dlx_heap" where
  "uncover_node j s =
     insert_ud j (s\<lparr>node_count := (node_count s)(header s j := node_count s (header s j) + 1)\<rparr>)"

text \<open>
  The loops \<open>while ((j = j->right) != i)\<close> follow links of a heap that the loop body
  changes, and stop only when the walk comes back to where it started. On a heap that is
  not a well-formed matrix they may run forever: the result \<open>None\<close> stands for that.
\<close>

partial_function (option) cover_row :: "ptr \<Rightarrow> ptr \<Rightarrow> dlx_heap \<Rightarrow> dlx_heap option" where
  [code]: "cover_row i j s =
     (if right s j = i then Some s
      else cover_row i (right s j) (cover_node (right s j) s))"

partial_function (option) cover_rows :: "ptr \<Rightarrow> ptr \<Rightarrow> dlx_heap \<Rightarrow> dlx_heap option" where
  [code]: "cover_rows h i s =
     (if down s i = h then Some s
      else Option.bind (cover_row (down s i) (down s i) s) (\<lambda>s1. cover_rows h (down s i) s1))"

definition cover :: "ptr \<Rightarrow> dlx_heap \<Rightarrow> dlx_heap option" where
  "cover h s = cover_rows h h (remove_lr h s)"

partial_function (option) uncover_row :: "ptr \<Rightarrow> ptr \<Rightarrow> dlx_heap \<Rightarrow> dlx_heap option" where
  [code]: "uncover_row i j s =
     (if left s j = i then Some s
      else uncover_row i (left s j) (uncover_node (left s j) s))"

partial_function (option) uncover_rows :: "ptr \<Rightarrow> ptr \<Rightarrow> dlx_heap \<Rightarrow> dlx_heap option" where
  [code]: "uncover_rows h i s =
     (if up s i = h then Some s
      else Option.bind (uncover_row (up s i) (up s i) s) (\<lambda>s1. uncover_rows h (up s i) s1))"

definition uncover :: "ptr \<Rightarrow> dlx_heap \<Rightarrow> dlx_heap option" where
  "uncover h s = map_option (insert_lr h) (uncover_rows h h s)"

partial_function (option) cover_other_from :: "ptr \<Rightarrow> ptr \<Rightarrow> dlx_heap \<Rightarrow> dlx_heap option" where
  [code]: "cover_other_from i j s =
     (if right s j = i then Some s
      else Option.bind (cover (header s (right s j)) s) (\<lambda>s1. cover_other_from i (right s j) s1))"

definition cover_other_columns :: "ptr \<Rightarrow> dlx_heap \<Rightarrow> dlx_heap option" where
  "cover_other_columns i s = cover_other_from i i s"

partial_function (option) uncover_other_from :: "ptr \<Rightarrow> ptr \<Rightarrow> dlx_heap \<Rightarrow> dlx_heap option" where
  [code]: "uncover_other_from i j s =
     (if left s j = i then Some s
      else Option.bind (uncover (header s (left s j)) s) (\<lambda>s1. uncover_other_from i (left s j) s1))"

definition uncover_other_columns :: "ptr \<Rightarrow> dlx_heap \<Rightarrow> dlx_heap option" where
  "uncover_other_columns i s = uncover_other_from i i s"

text \<open>\<open>hnode_min_count\<close>: \<open>mn\<close> is the local \<open>min\<close>, \<open>NULL\<close> before the first header.\<close>

partial_function (option) hnode_min_from :: "dlx_heap \<Rightarrow> ptr \<Rightarrow> ptr \<Rightarrow> ptr \<Rightarrow> ptr option" where
  [code]: "hnode_min_from s root h mn =
     (if right s h = root then Some mn
      else hnode_min_from s root (right s h)
             (if mn = Null \<or> node_count s (right s h) < node_count s mn then right s h else mn))"

definition hnode_min_count :: "ptr \<Rightarrow> dlx_heap \<Rightarrow> ptr option" where
  "hnode_min_count root s = hnode_min_from s root root Null"

section \<open>Row preselection\<close>

text \<open>The \<open>int\<close> a preselection function returns, with the heap it leaves.\<close>

definition dlx_force_row :: "ptr \<Rightarrow> dlx_heap \<Rightarrow> (int \<times> dlx_heap) option" where
  "dlx_force_row r s =
     (if is_removed_ud r s then Some (- 1, s)
      else Option.bind (cover (header s r) s) (\<lambda>s1.
           Option.bind (cover_other_columns r s1) (\<lambda>s2. Some (0, s2))))"

definition dlx_unselect_row :: "ptr \<Rightarrow> dlx_heap \<Rightarrow> (int \<times> dlx_heap) option" where
  "dlx_unselect_row r s =
     (if \<not> is_removed_ud r s then Some (- 1, s)
      else Option.bind (uncover_other_columns r s) (\<lambda>s1.
           Option.bind (uncover (header s1 r) s1) (\<lambda>s2. Some (0, s2))))"

section \<open>Building a matrix\<close>

text \<open>The assignments that set one column header up (they are the same in every branch).\<close>

definition set_header :: "ptr \<Rightarrow> ptr \<Rightarrow> ptr \<Rightarrow> dlx_heap \<Rightarrow> dlx_heap" where
  "set_header hi l r s =
     s\<lparr>left := (left s)(hi := l), right := (right s)(hi := r), up := (up s)(hi := hi),
       down := (down s)(hi := hi), header := (header s)(hi := hi),
       node_count := (node_count s)(hi := 1)\<rparr>"

definition set_root :: "ptr \<Rightarrow> ptr \<Rightarrow> ptr \<Rightarrow> dlx_heap \<Rightarrow> dlx_heap" where
  "set_root root l r s =
     s\<lparr>left := (left s)(root := l), right := (right s)(root := r), up := (up s)(root := Null),
       down := (down s)(root := Null), header := (header s)(root := Null),
       node_count := (node_count s)(root := 1)\<rparr>"

definition dlx_make_header_row :: "ptr \<Rightarrow> ptr \<Rightarrow> nat \<Rightarrow> dlx_heap \<Rightarrow> dlx_heap" where
  "dlx_make_header_row root headers n s =
     (if n < 1 then set_root root root root s
      else
        let s1 = set_root root (ptr_add headers (n - 1)) headers s
        in if n = 1 then set_header headers root root s1
           else
             let s2 = set_header headers root (ptr_add headers 1) s1;
                 s3 = fold (\<lambda>i. set_header (ptr_add headers i)
                                   (ptr_sub (ptr_add headers i) 1)
                                   (ptr_add (ptr_add headers i) 1)) [1 ..< n - 1] s2
             in set_header (ptr_add headers (n - 1))
                  (ptr_sub (ptr_add headers (n - 1)) 1) root s3)"

definition set_row_node :: "ptr \<Rightarrow> ptr \<Rightarrow> ptr \<Rightarrow> nat option \<Rightarrow> dlx_heap \<Rightarrow> dlx_heap" where
  "set_row_node ni l r rid s =
     s\<lparr>left := (left s)(ni := l), right := (right s)(ni := r), row_id := (row_id s)(ni := rid)\<rparr>"

definition dlx_make_row :: "ptr \<Rightarrow> nat option \<Rightarrow> nat \<Rightarrow> dlx_heap \<Rightarrow> dlx_heap" where
  "dlx_make_row nodes rid n s =
     (if n < 1 then s
      else if n = 1 then set_row_node nodes nodes nodes rid s
      else
        let s1 = set_row_node nodes (ptr_add nodes (n - 1)) (ptr_add nodes 1) rid s;
            s2 = fold (\<lambda>i. set_row_node (ptr_add nodes i)
                              (ptr_sub (ptr_add nodes i) 1)
                              (ptr_add (ptr_add nodes i) 1) rid) [1 ..< n - 1] s1
        in set_row_node (ptr_add nodes (n - 1)) (ptr_sub (ptr_add nodes (n - 1)) 1) nodes rid s2)"

text \<open>\<open>headers\<close> is the parallel array of header pointers, read at \<open>0 .. n - 1\<close>.\<close>

definition dlx_add_row :: "ptr \<Rightarrow> (nat \<Rightarrow> ptr) \<Rightarrow> nat \<Rightarrow> dlx_heap \<Rightarrow> dlx_heap" where
  "dlx_add_row nodes headers n s =
     fold (\<lambda>i. append_node_to_column (ptr_add nodes i) (headers i)) [0 ..< n] s"

section \<open>The exact cover search\<close>

record dlx_srow =
  row_node :: ptr
  cid :: "nat option"
  n_choices :: "64 word"

text \<open>
  What a call of \<open>dlx_exact_cover\<close> works on: the matrix, the caller's \<open>solution\<close>
  array and the counter \<open>*pnsol\<close>. The depth \<open>k\<close> and the returned size are
  \<open>size_t\<close> values bounded by the number of columns; they are natural numbers here.
\<close>

record search =
  heap :: dlx_heap
  solution :: "nat \<Rightarrow> dlx_srow"
  pnsol :: "64 word"

definition calloc_solution :: "nat \<Rightarrow> dlx_srow" where
  "calloc_solution = (\<lambda>_. \<lparr> row_node = Null, cid = None, n_choices = 0 \<rparr>)"

text \<open>
  The recursion and its row loop, with fuel: one unit per call and per loop iteration,
  \<open>None\<close> when it runs out. \<open>exact_cover_rows\<close> is the \<open>while\<close> loop from the
  row below \<open>i\<close> on, with \<open>n\<close> the value of the local so far.
\<close>

fun dlx_exact_cover :: "nat \<Rightarrow> ptr \<Rightarrow> nat \<Rightarrow> search \<Rightarrow> (nat \<times> search) option"
and exact_cover_rows :: "nat \<Rightarrow> ptr \<Rightarrow> ptr \<Rightarrow> ptr \<Rightarrow> nat \<Rightarrow> nat \<Rightarrow> search \<Rightarrow> (nat \<times> search) option"
where
  "dlx_exact_cover 0 root k st = None"
| "dlx_exact_cover (Suc fuel) root k st =
     (if right (heap st) root = root then Some (k, st\<lparr>pnsol := pnsol st - 1\<rparr>)
      else
        Option.bind (hnode_min_count root (heap st)) (\<lambda>col.
        Option.bind (cover col (heap st)) (\<lambda>s1.
        let st1 = st\<lparr>heap := s1,
                    solution := (solution st)(k := (solution st k)
                       \<lparr>cid := col_id s1 col, n_choices := node_count s1 col\<rparr>)\<rparr>
        in Option.bind (exact_cover_rows fuel root col col k 0 st1) (\<lambda>(n, st2).
           Option.bind (uncover col (heap st2)) (\<lambda>s3. Some (n, st2\<lparr>heap := s3\<rparr>))))))"
| "exact_cover_rows 0 root col i k n st = None"
| "exact_cover_rows (Suc fuel) root col i k n st =
     (if down (heap st) i = col then Some (n, st)
      else
        let i' = down (heap st) i
        in Option.bind (cover_other_columns i' (heap st)) (\<lambda>s1.
           Option.bind (dlx_exact_cover fuel root (k + 1) (st\<lparr>heap := s1\<rparr>)) (\<lambda>(n', st1).
           Option.bind (uncover_other_columns i' (heap st1)) (\<lambda>s2.
           let st2 = st1\<lparr>heap := s2\<rparr>;
               st3 = (if n' > 0
                      then st2\<lparr>solution := (solution st2)(k := (solution st2 k)\<lparr>row_node := i'\<rparr>)\<rparr>
                      else st2)
           in if pnsol st3 = 0 then Some (n', st3)
              else exact_cover_rows fuel root col i' k n' st3))))"

definition dlx_row_id :: "ptr \<Rightarrow> dlx_heap \<Rightarrow> nat option" where
  "dlx_row_id node s = (if node = Null then None else row_id s node)"

section \<open>The growable buffer of the loader (dlx_read.c)\<close>

text \<open>
  \<open>size_t\<close> is 64 bits wide and \<open>sizeof(size_t)\<close> is 8. The fields of a buffer are
  natural numbers below \<open>2 ^ 64\<close>; where the source's arithmetic can wrap around, the
  model reduces modulo \<open>2 ^ 64\<close>.
\<close>

definition SIZE_MAX :: nat where
  "SIZE_MAX = 2 ^ 64 - 1"

definition sizeof_val :: nat where
  "sizeof_val = 8"

text \<open>
  A block of allocated storage: its size in bytes and the \<open>size_t\<close> cells that lie
  wholly inside it. Storage that \<open>realloc\<close> adds is indeterminate in C; it is filled
  with 0 here and is never read before it is written.
\<close>

record block =
  size_bytes :: nat
  cells :: "nat list"

definition calloc_block :: "nat \<Rightarrow> block" where
  "calloc_block n = \<lparr> size_bytes = n * sizeof_val, cells = replicate n 0 \<rparr>"

definition realloc_block :: "block \<Rightarrow> nat \<Rightarrow> block" where
  "realloc_block b m =
     \<lparr> size_bytes = m,
       cells = take (m div sizeof_val) (cells b)
               @ replicate (m div sizeof_val - length (cells b)) 0 \<rparr>"

text \<open>
  Whether an allocation succeeds is the environment's choice: the answers to the calls
  of \<open>malloc\<close>, \<open>calloc\<close> and \<open>realloc\<close>, in the order the calls are made. When
  the list is used up every later call succeeds.
\<close>

type_synonym answers = "bool list"

fun next_alloc :: "answers \<Rightarrow> bool \<times> answers" where
  "next_alloc [] = (True, [])"
| "next_alloc (b # bs) = (b, bs)"

record size_t_darray =
  sz_max :: nat
  sz_cur :: nat
  i_next :: nat
  data :: block

definition size_t_darray_create :: "nat \<Rightarrow> answers \<Rightarrow> size_t_darray option \<times> answers" where
  "size_t_darray_create sz_initial orc =
     (case next_alloc orc of
        (False, orc1) \<Rightarrow> (None, orc1)
      | (True, orc1) \<Rightarrow>
          (case next_alloc orc1 of
             (False, orc2) \<Rightarrow> (None, orc2)
           | (True, orc2) \<Rightarrow>
               (Some \<lparr> sz_max = sz_initial, sz_cur = 0, i_next = 0,
                       data = calloc_block sz_initial \<rparr>, orc2)))"

text \<open>\<open>size_t_darray_grow\<close>: the \<open>int\<close> it returns, the buffer and the answers left.\<close>

definition size_t_darray_grow :: "size_t_darray \<Rightarrow> answers \<Rightarrow> int \<times> size_t_darray \<times> answers" where
  "size_t_darray_grow array orc =
     (let new_size = sz_max array div 2;
          new_size = (if new_size = 0 then new_size + 1 else new_size);
          new_size = (if new_size > SIZE_MAX - sz_max array then SIZE_MAX
                      else new_size + sz_max array)
      in if new_size \<le> sz_cur array then (- 1, array, orc)
         else case next_alloc orc of
                (False, orc1) \<Rightarrow> (- 1, array, orc1)
              | (True, orc1) \<Rightarrow>
                  (0, array\<lparr>sz_max := new_size, data := realloc_block (data array) new_size\<rparr>,
                   orc1))"

text \<open>
  A store \<open>array->data[i] = val\<close> lies inside the block when the cell's last byte
  does; a store outside it is a fault of its own, not a return value.
\<close>

datatype fault = OutOfBounds

definition store_cell :: "block \<Rightarrow> nat \<Rightarrow> nat \<Rightarrow> fault + block" where
  "store_cell b i v =
     (if (i + 1) * sizeof_val \<le> size_bytes b \<and> i < length (cells b)
      then Inr (b\<lparr>cells := (cells b)[i := v]\<rparr>)
      else Inl OutOfBounds)"

definition size_t_darray_append ::
  "size_t_darray \<Rightarrow> nat \<Rightarrow> answers \<Rightarrow> fault + (int \<times> size_t_darray \<times> answers)" where
  "size_t_darray_append array val orc =
     (let (r, array1, orc1) =
            (if sz_cur array > (sz_max array + 2 ^ 64 - sizeof_val) mod 2 ^ 64
             then size_t_darray_grow array orc
             else (0, array, orc))
      in if r \<noteq> 0 then Inr (- 1, array1, orc1)
         else case store_cell (data array1) (i_next array1) val of
                Inl f \<Rightarrow> Inl f
              | Inr b \<Rightarrow>
                  Inr (0, array1\<lparr>data := b, i_next := (i_next array1 + 1) mod 2 ^ 64,
                                 sz_cur := (sz_cur array1 + sizeof_val) mod 2 ^ 64\<rparr>, orc1))"

definition size_t_darray_trim :: "size_t_darray \<Rightarrow> answers \<Rightarrow> int \<times> size_t_darray \<times> answers" where
  "size_t_darray_trim array orc =
     (case next_alloc orc of
        (ok, orc1) \<Rightarrow>
          if \<not> ok \<and> sz_cur array \<noteq> 0 then (- 1, array, orc1)
          else (0, array\<lparr>sz_max := sz_cur array,
                          data := realloc_block (data array) (sz_cur array)\<rparr>, orc1))"

text \<open>The exported array: the data pointer together with the element count.\<close>

definition size_t_darray_export :: "size_t_darray \<Rightarrow> nat list" where
  "size_t_darray_export array = take (i_next array) (cells (data array))"

definition size_t_darray_size :: "size_t_darray \<Rightarrow> nat" where
  "size_t_darray_size array = i_next array"

section \<open>Reading the text into a binary CSR matrix\<close>

definition DLXR_ESUCCESS :: int where "DLXR_ESUCCESS = 0"
definition DLXR_EALLOC :: int where "DLXR_EALLOC = 1"
definition DLXR_EDATAERR :: int where "DLXR_EDATAERR = 2"
definition DLXR_EIOERR :: int where "DLXR_EIOERR = 3"

record binary_csr_matrix =
  row_ptr_size :: nat
  col_ind :: "nat list"
  row_ptr :: "nat list"

text \<open>
  The stream: the characters \<open>getc\<close> delivers, and whether the \<open>EOF\<close> after them
  is a read error (\<open>ferror\<close>) rather than the end of the file.
\<close>

record stream =
  chars :: string
  io_error :: bool

record reader =
  col_ind_darray :: size_t_darray
  row_ptr_darray :: size_t_darray
  max_cols :: nat
  col :: nat
  fl_newline :: bool
  alloc :: answers

text \<open>
  \<open>read_bcsr\<close> calls \<open>size_t_darray_append\<close> as a statement: the value it returns
  is dropped, and the loop goes on with whatever the call left in the buffer.
\<close>

definition append_col_ind :: "nat \<Rightarrow> reader \<Rightarrow> fault + reader" where
  "append_col_ind v rd =
     (case size_t_darray_append (col_ind_darray rd) v (alloc rd) of
        Inl f \<Rightarrow> Inl f
      | Inr (r, a, orc) \<Rightarrow> Inr (rd\<lparr>col_ind_darray := a, alloc := orc\<rparr>))"

definition append_row_ptr :: "nat \<Rightarrow> reader \<Rightarrow> fault + reader" where
  "append_row_ptr v rd =
     (case size_t_darray_append (row_ptr_darray rd) v (alloc rd) of
        Inl f \<Rightarrow> Inl f
      | Inr (r, a, orc) \<Rightarrow> Inr (rd\<lparr>row_ptr_darray := a, alloc := orc\<rparr>))"

text \<open>
  The \<open>while ((c = getc(stream)) != EOF)\<close> loop over the characters delivered. It
  returns \<open>ret\<close> and the reader's variables when the loop is left.
\<close>

fun read_loop :: "string \<Rightarrow> reader \<Rightarrow> fault + (int \<times> reader)" where
  "read_loop [] rd = Inr (DLXR_ESUCCESS, rd)"
| "read_loop (c # cs) rd =
     (if c = CHR ''1'' then
        (case append_col_ind (col rd) rd of
           Inl f \<Rightarrow> Inl f
         | Inr rd1 \<Rightarrow> read_loop cs (rd1\<lparr>col := (col rd + 1) mod 2 ^ 64, fl_newline := False\<rparr>))
      else if c = CHR ''0'' then
        read_loop cs (rd\<lparr>col := (col rd + 1) mod 2 ^ 64, fl_newline := False\<rparr>)
      else if c = CHR 0x0A then
        (case append_row_ptr (size_t_darray_size (col_ind_darray rd)) rd of
           Inl f \<Rightarrow> Inl f
         | Inr rd1 \<Rightarrow>
             read_loop cs (rd1\<lparr>max_cols := (if max_cols rd1 < col rd1 then col rd1 else max_cols rd1),
                                col := 0, fl_newline := True\<rparr>))
      else Inr (- DLXR_EDATAERR, rd))"

text \<open>The part of \<open>read_bcsr\<close> after the loop, entered with \<open>c == EOF\<close>.\<close>

definition at_eof :: "bool \<Rightarrow> reader \<Rightarrow> fault + (int \<times> reader)" where
  "at_eof err rd =
     (if err then Inr (- DLXR_EIOERR, rd)
      else if \<not> fl_newline rd then
        (case append_row_ptr (size_t_darray_size (col_ind_darray rd)) rd of
           Inl f \<Rightarrow> Inl f
         | Inr rd1 \<Rightarrow>
             Inr (DLXR_ESUCCESS,
                  rd1\<lparr>max_cols := (if max_cols rd1 < col rd1 then col rd1 else max_cols rd1)\<rparr>))
      else Inr (DLXR_ESUCCESS, rd))"

text \<open>
  Trimming both buffers: the second \<open>size_t_darray_trim\<close> is not called when the first
  fails (\<open>||\<close>).
\<close>

definition trim_both :: "reader \<Rightarrow> int \<times> reader" where
  "trim_both rd =
     (case size_t_darray_trim (col_ind_darray rd) (alloc rd) of
        (r1, a1, orc1) \<Rightarrow>
          if r1 \<noteq> 0 then (- DLXR_EALLOC, rd\<lparr>col_ind_darray := a1, alloc := orc1\<rparr>)
          else case size_t_darray_trim (row_ptr_darray rd) orc1 of
                 (r2, a2, orc2) \<Rightarrow>
                   (if r2 \<noteq> 0 then - DLXR_EALLOC else DLXR_ESUCCESS,
                    rd\<lparr>col_ind_darray := a1, row_ptr_darray := a2, alloc := orc2\<rparr>))"

text \<open>
  The result of \<open>read_bcsr\<close>: the \<open>int\<close> returned, the answers left and, on success
  only, the CSR matrix stored through \<open>csr\<close> with the column count stored through
  \<open>n\<close>. On every error the pointers of \<open>csr\<close> are \<open>NULL\<close>.
\<close>

definition read_bcsr ::
  "stream \<Rightarrow> answers \<Rightarrow> fault + (int \<times> (binary_csr_matrix \<times> nat) option \<times> answers)" where
  "read_bcsr stream orc =
     (case size_t_darray_create 512 orc of
        (None, orc1) \<Rightarrow> Inr (- DLXR_EALLOC, None, orc1)
      | (Some ci, orc1) \<Rightarrow>
     (case size_t_darray_create 256 orc1 of
        (None, orc2) \<Rightarrow> Inr (- DLXR_EALLOC, None, orc2)
      | (Some rp, orc2) \<Rightarrow>
     (case append_row_ptr 0 \<lparr> col_ind_darray = ci, row_ptr_darray = rp, max_cols = 0,
                              col = 0, fl_newline = True, alloc = orc2 \<rparr> of
        Inl f \<Rightarrow> Inl f
      | Inr rd0 \<Rightarrow>
     (case read_loop (chars stream) rd0 of
        Inl f \<Rightarrow> Inl f
      | Inr (ret1, rd1) \<Rightarrow>
     (case (if ret1 = DLXR_ESUCCESS then at_eof (io_error stream) rd1 else Inr (ret1, rd1)) of
        Inl f \<Rightarrow> Inl f
      | Inr (ret2, rd2) \<Rightarrow>
     (case (if ret2 = DLXR_ESUCCESS then trim_both rd2 else (ret2, rd2)) of
        (ret3, rd3) \<Rightarrow>
          if ret3 = DLXR_ESUCCESS
          then Inr (ret3,
                    Some (\<lparr> row_ptr_size = size_t_darray_size (row_ptr_darray rd3),
                            col_ind = size_t_darray_export (col_ind_darray rd3),
                            row_ptr = size_t_darray_export (row_ptr_darray rd3) \<rparr>,
                          max_cols rd3),
                    alloc rd3)
          else Inr (ret3, None, alloc rd3)))))))"

section \<open>Building the DLX matrix from the CSR matrix\<close>

record dlx_matrix =
  nodes_heap :: dlx_heap
  row_off :: "nat list"
  n_col :: nat
  n_row :: nat

text \<open>
  The four \<open>calloc\<close> calls are joined by \<open>&&\<close>: the first that fails ends the chain.
\<close>

fun alloc_chain :: "nat \<Rightarrow> answers \<Rightarrow> bool \<times> answers" where
  "alloc_chain 0 orc = (True, orc)"
| "alloc_chain (Suc n) orc =
     (case next_alloc orc of (False, orc1) \<Rightarrow> (False, orc1) | (True, orc1) \<Rightarrow> alloc_chain n orc1)"

text \<open>
  One turn of the loop over the rows: \<open>pheaders\<close> is filled for row \<open>i\<close>, the row's
  nodes are linked and appended to their columns, and \<open>row_off[i + 1]\<close> is stored. The
  reads \<open>row_ptr[i]\<close>, \<open>row_ptr[i + 1]\<close> and \<open>col_ind[j]\<close> lie inside the arrays
  for the CSR matrix \<open>read_bcsr\<close> delivers, the only one \<open>bcsr_to_dlx\<close> is called on.
\<close>

definition bcsr_row ::
  "binary_csr_matrix \<Rightarrow> nat \<Rightarrow> dlx_heap \<times> (nat \<Rightarrow> ptr) \<times> nat list
     \<Rightarrow> dlx_heap \<times> (nat \<Rightarrow> ptr) \<times> nat list" where
  "bcsr_row csr i = (\<lambda>(s, pheaders, roff).
     let ri_start = row_ptr csr ! i;
         ri_end = row_ptr csr ! (i + 1);
         pheaders1 = fold (\<lambda>j ph. ph(j - ri_start := ptr_add (Hdr 0) (col_ind csr ! j)))
                       [ri_start ..< ri_end] pheaders;
         s1 = dlx_make_row (ptr_add (Nd 0) ri_start) (Some i) (ri_end - ri_start) s;
         s2 = dlx_add_row (ptr_add (Nd 0) ri_start) pheaders1 (ri_end - ri_start) s1
     in (s2, pheaders1, roff[i + 1 := ri_end]))"

definition bcsr_to_dlx ::
  "binary_csr_matrix \<Rightarrow> nat \<Rightarrow> answers \<Rightarrow> int \<times> dlx_matrix option \<times> answers" where
  "bcsr_to_dlx csr ncols orc =
     (case alloc_chain 4 orc of
        (False, orc1) \<Rightarrow> (- DLXR_EALLOC, None, orc1)
      | (True, orc1) \<Rightarrow>
          let s0 = dlx_make_header_row Root (Hdr 0) ncols calloc_heap;
              roff0 = (replicate (row_ptr_size csr) 0)[0 := 0];
              (s, pheaders, roff) =
                 fold (bcsr_row csr) [0 ..< row_ptr_size csr - 1] (s0, (\<lambda>_. Null), roff0)
          in (DLXR_ESUCCESS,
              Some \<lparr> nodes_heap = s, row_off = roff, n_col = ncols,
                     n_row = row_ptr_size csr - 1 \<rparr>,
              orc1))"

definition dlx_read_matrix :: "stream \<Rightarrow> answers \<Rightarrow> fault + (int \<times> dlx_matrix option \<times> answers)" where
  "dlx_read_matrix stream orc =
     (case read_bcsr stream orc of
        Inl f \<Rightarrow> Inl f
      | Inr (ret, None, orc1) \<Rightarrow> Inr (ret, None, orc1)
      | Inr (ret, Some (csr, ncols), orc1) \<Rightarrow>
          if ret = 0 then Inr (bcsr_to_dlx csr ncols orc1) else Inr (ret, None, orc1))"

section \<open>Walks and example matrices\<close>

text \<open>
  The nodes a loop \<open>while ((x = x->f) != stop)\<close> visits when it starts at \<open>x\<close>, in
  the order it visits them; \<open>None\<close> when the walk never comes to \<open>stop\<close>.
\<close>

partial_function (option) walk :: "(ptr \<Rightarrow> ptr) \<Rightarrow> ptr \<Rightarrow> ptr \<Rightarrow> ptr list option" where
  [code]: "walk f stop x =
     (if f x = stop then Some []
      else Option.bind (walk f stop (f x)) (\<lambda>xs. Some (f x # xs)))"

text \<open>The matrix with one column and the single row \<open>1\<close>, built by the three builders.\<close>

definition single_one :: dlx_heap where
  "single_one =
     dlx_add_row (Nd 0) (\<lambda>i. Hdr 0) 1
       (dlx_make_row (Nd 0) (Some 0) 1
          (dlx_make_header_row Root (Hdr 0) 1 calloc_heap))"

text \<open>
  A matrix with three columns and the four rows \<open>110\<close>, \<open>011\<close>, \<open>100\<close> and
  \<open>001\<close>, as \<open>dlx_make_header_row\<close>, \<open>dlx_make_row\<close> and \<open>dlx_add_row\<close>
  leave it: nodes 0 and 1 are row 0, nodes 2 and 3 row 1, node 4 row 2 and node 5 row 3.
\<close>

definition demo :: dlx_heap where
  "demo = \<lparr>
     row_id = (\<lambda>_. None)(Nd 0 := Some 0, Nd 1 := Some 0, Nd 2 := Some 1, Nd 3 := Some 1,
                           Nd 4 := Some 2, Nd 5 := Some 3),
     left = (\<lambda>_. Null)(Root := Hdr 2, Hdr 0 := Root, Hdr 1 := Hdr 0, Hdr 2 := Hdr 1,
                         Nd 0 := Nd 1, Nd 1 := Nd 0, Nd 2 := Nd 3, Nd 3 := Nd 2,
                         Nd 4 := Nd 4, Nd 5 := Nd 5),
     right = (\<lambda>_. Null)(Root := Hdr 0, Hdr 0 := Hdr 1, Hdr 1 := Hdr 2, Hdr 2 := Root,
                          Nd 0 := Nd 1, Nd 1 := Nd 0, Nd 2 := Nd 3, Nd 3 := Nd 2,
                          Nd 4 := Nd 4, Nd 5 := Nd 5),
     up = (\<lambda>_. Null)(Hdr 0 := Nd 4, Nd 4 := Nd 0, Nd 0 := Hdr 0,
                       Hdr 1 := Nd 2, Nd 2 := Nd 1, Nd 1 := Hdr 1,
                       Hdr 2 := Nd 5, Nd 5 := Nd 3, Nd 3 := Hdr 2),
     down = (\<lambda>_. Null)(Hdr 0 := Nd 0, Nd 0 := Nd 4, Nd 4 := Hdr 0,
                         Hdr 1 := Nd 1, Nd 1 := Nd 2, Nd 2 := Hdr 1,
                         Hdr 2 := Nd 3, Nd 3 := Nd 5, Nd 5 := Hdr 2),
     header = (\<lambda>_. Null)(Hdr 0 := Hdr 0, Hdr 1 := Hdr 1, Hdr 2 := Hdr 2,
                           Nd 0 := Hdr 0, Nd 1 := Hdr 1, Nd 2 := Hdr 1, Nd 3 := Hdr 2,
                           Nd 4 := Hdr 0, Nd 5 := Hdr 2),
     node_count = (\<lambda>_. 0)(Root := 1, Hdr 0 := 3, Hdr 1 := 3, Hdr 2 := 3),
     col_id = (\<lambda>_. None) \<rparr>"

section \<open>Well-formed matrices\<close>

text \<open>
  \<open>trail f x zs y\<close>: following \<open>f\<close> from \<open>x\<close> passes through the nodes \<open>zs\<close>,
  in this order, and then arrives at \<open>y\<close>.
\<close>

fun trail :: "(ptr \<Rightarrow> ptr) \<Rightarrow> ptr \<Rightarrow> ptr list \<Rightarrow> ptr \<Rightarrow> bool" where
  "trail f x [] y = (f x = y)"
| "trail f x (z # zs) y = (f x = z \<and> trail f z zs y)"

text \<open>
  The live column headers (the walk to the right from the root), the nodes of a column
  (the walk down from its header) and the other nodes of a row (the walk to the right
  from one of its nodes); empty when the walk does not close.
\<close>

definition headers_of :: "dlx_heap \<Rightarrow> ptr list" where
  "headers_of s = (case walk (right s) Root Root of Some hs \<Rightarrow> hs | None \<Rightarrow> [])"

definition column_of :: "dlx_heap \<Rightarrow> ptr \<Rightarrow> ptr list" where
  "column_of s h = (case walk (down s) h h of Some c \<Rightarrow> c | None \<Rightarrow> [])"

definition row_of :: "dlx_heap \<Rightarrow> ptr \<Rightarrow> ptr list" where
  "row_of s x = (case walk (right s) x x of Some r \<Rightarrow> r | None \<Rightarrow> [])"

text \<open>The headers and the data nodes of a matrix with \<open>C\<close> columns and \<open>N\<close> nodes.\<close>

definition is_hdr :: "nat \<Rightarrow> ptr \<Rightarrow> bool" where
  "is_hdr C p = (case p of Hdr c \<Rightarrow> c < C | _ \<Rightarrow> False)"

definition is_nd :: "nat \<Rightarrow> ptr \<Rightarrow> bool" where
  "is_nd N p = (case p of Nd i \<Rightarrow> i < N | _ \<Rightarrow> False)"

definition is_top :: "nat \<Rightarrow> ptr \<Rightarrow> bool" where
  "is_top C p = (p = Root \<or> is_hdr C p)"

text \<open>A node is vertically linked when both its vertical neighbours point back at it.\<close>

definition linked :: "dlx_heap \<Rightarrow> ptr \<Rightarrow> bool" where
  "linked s j = (down s (up s j) = j \<and> up s (down s j) = j)"

definition is_cell :: "nat \<Rightarrow> nat \<Rightarrow> ptr \<Rightarrow> bool" where
  "is_cell C N p = (is_hdr C p \<or> is_nd N p)"

text \<open>
  Every link stays in its own list: the horizontal links of the root and the headers
  lead to the root or a header; the horizontal links of a data node lead to data nodes
  and are inverse to each other; the vertical links of a header or a data node lead to a
  header or a data node of the same column. A header is its own column header.
\<close>

definition vertical_ok :: "nat \<Rightarrow> nat \<Rightarrow> dlx_heap \<Rightarrow> ptr \<Rightarrow> bool" where
  "vertical_ok C N s x =
     (is_cell C N (up s x) \<and> is_cell C N (down s x)
      \<and> header s (up s x) = header s x \<and> header s (down s x) = header s x)"

definition vlocal :: "nat \<Rightarrow> nat \<Rightarrow> dlx_heap \<Rightarrow> bool" where
  "vlocal C N s = (\<forall>x. is_cell C N x \<longrightarrow> vertical_ok C N s x)"

definition typed :: "nat \<Rightarrow> nat \<Rightarrow> dlx_heap \<Rightarrow> bool" where
  "typed C N s =
     (is_top C (left s Root) \<and> is_top C (right s Root)
      \<and> (\<forall>c \<in> set [0 ..< C]. header s (Hdr c) = Hdr c
             \<and> is_top C (left s (Hdr c)) \<and> is_top C (right s (Hdr c))
             \<and> vertical_ok C N s (Hdr c))
      \<and> (\<forall>i \<in> set [0 ..< N]. is_nd N (left s (Nd i)) \<and> is_nd N (right s (Nd i))
             \<and> left s (right s (Nd i)) = Nd i \<and> right s (left s (Nd i)) = Nd i
             \<and> is_hdr C (header s (Nd i))
             \<and> vertical_ok C N s (Nd i)))"

text \<open>
  A well-formed state of a matrix, at rest or in the middle of a search:
  \<^item> every row closes into a ring and has at most one node in any column;
  \<^item> the live headers and the root form a ring, linked symmetrically;
  \<^item> the column of every live header closes into a ring, linked symmetrically;
  \<^item> every node in the row of a node of a live column is itself in its column, and that
    column is live.
  Nothing is asked of the links of excised nodes and covered headers.
\<close>

definition valid :: "nat \<Rightarrow> nat \<Rightarrow> dlx_heap \<Rightarrow> bool" where
  "valid C N s =
     (typed C N s
      \<and> (\<forall>i \<in> set [0 ..< N]. walk (right s) (Nd i) (Nd i) \<noteq> None
             \<and> distinct (map (header s) (Nd i # row_of s (Nd i))))
      \<and> walk (right s) Root Root \<noteq> None
      \<and> (\<forall>h \<in> set (headers_of s). is_hdr C h)
      \<and> (\<forall>x \<in> set (Root # headers_of s). left s (right s x) = x \<and> right s (left s x) = x)
      \<and> (\<forall>h \<in> set (headers_of s).
             walk (down s) h h \<noteq> None
             \<and> (\<forall>x \<in> set (h # column_of s h). up s (down s x) = x \<and> down s (up s x) = x)
             \<and> (\<forall>i \<in> set (column_of s h). \<forall>j \<in> set (row_of s i).
                   header s j \<in> set (headers_of s) \<and> j \<in> set (column_of s (header s j)))))"

text \<open>
  The nodes \<open>cover\<close> excises for the column of \<open>h\<close>: for every node of the column,
  from the top down, the other nodes of its row, from left to right.
\<close>

definition covered_nodes :: "dlx_heap \<Rightarrow> ptr \<Rightarrow> ptr list" where
  "covered_nodes s h = concat (map (row_of s) (column_of s h))"

text \<open>
  A ring anchored at \<open>r\<close>: following \<open>f\<close> from \<open>r\<close> passes through \<open>xs\<close> and
  comes back to \<open>r\<close>, and \<open>g\<close> leads the same way backwards.
\<close>

definition sym_ring :: "(ptr \<Rightarrow> ptr) \<Rightarrow> (ptr \<Rightarrow> ptr) \<Rightarrow> ptr \<Rightarrow> ptr list \<Rightarrow> bool" where
  "sym_ring f g r xs =
     (trail f r xs r \<and> r \<notin> set xs \<and> (\<forall>u \<in> set (r # xs). g (f u) = u \<and> f (g u) = u))"

text \<open>The state \<open>cover\<close> leaves: the header unlinked, then the nodes excised.\<close>

definition covered :: "dlx_heap \<Rightarrow> ptr \<Rightarrow> dlx_heap" where
  "covered s h = fold cover_node (covered_nodes s h) (remove_lr h s)"

text \<open>
  The walks of \<open>uncover\<close>: up a column from its header, and to the left along a row.
\<close>

definition column_up :: "dlx_heap \<Rightarrow> ptr \<Rightarrow> ptr list" where
  "column_up s h = (case walk (up s) h h of Some c \<Rightarrow> c | None \<Rightarrow> [])"

definition row_left :: "dlx_heap \<Rightarrow> ptr \<Rightarrow> ptr list" where
  "row_left s x = (case walk (left s) x x of Some r \<Rightarrow> r | None \<Rightarrow> [])"

text \<open>The state \<open>uncover\<close> leaves: the nodes put back, then the header linked in.\<close>

definition uncovered :: "dlx_heap \<Rightarrow> ptr \<Rightarrow> dlx_heap" where
  "uncovered s h = insert_lr h (fold uncover_node (concat (map (row_left s) (column_up s h))) s)"

text \<open>
  What the preselection of the row of \<open>r\<close> leaves: the column of \<open>r\<close> covered, then
  the columns of the other nodes of the row, from left to right; and what undoing it
  leaves: the columns of the other nodes uncovered, from right to left, then the column
  of \<open>r\<close>.
\<close>

definition forced :: "dlx_heap \<Rightarrow> ptr \<Rightarrow> dlx_heap" where
  "forced s r = fold (\<lambda>j t. covered t (header s j)) (row_of s r) (covered s (header s r))"

definition unselected :: "dlx_heap \<Rightarrow> ptr \<Rightarrow> dlx_heap" where
  "unselected s r =
     uncovered (fold (\<lambda>j t. uncovered t (header s j)) (row_left s r) s) (header s r)"

text \<open>
  A state that a built matrix can be in, whatever columns have been covered, in whatever
  order: the builders append every node below the nodes already in its column, and
  \<open>cover\<close> and \<open>uncover\<close> only ever make a link skip nodes or lead back to a node it
  skipped. So there is a ranking \<open>rk\<close> of the data nodes, the order in which they were
  appended, such that from every data node the link \<open>down\<close> leads to a node of greater
  rank or to the column header, and the link \<open>up\<close> to a node of smaller rank or to the
  column header. Together with the typing of the links and the rows being rings with at
  most one node in any column, this is what makes every loop of the engine come to its end.
\<close>

definition ranked :: "(ptr \<Rightarrow> nat) \<Rightarrow> nat \<Rightarrow> nat \<Rightarrow> dlx_heap \<Rightarrow> bool" where
  "ranked rk C N s =
     (typed C N s
      \<and> (\<forall>i \<in> set [0 ..< N].
             walk (right s) (Nd i) (Nd i) \<noteq> None
             \<and> distinct (map (header s) (Nd i # row_of s (Nd i)))
             \<and> (down s (Nd i) = header s (Nd i) \<or> rk (Nd i) < rk (down s (Nd i)))
             \<and> (up s (Nd i) = header s (Nd i) \<or> rk (up s (Nd i)) < rk (Nd i))))"

text \<open>The rank of a node of a matrix the loader built: its index in the node array.\<close>

definition node_index :: "ptr \<Rightarrow> nat" where
  "node_index p = (case p of Nd i \<Rightarrow> i | _ \<Rightarrow> 0)"

section \<open>Exact covers\<close>

text \<open>
  The columns of the row of a data node \<open>r\<close>, as column headers, and whether \<open>r\<close> is
  a node of a live column, so that its row is still a candidate.
\<close>

definition row_headers :: "dlx_heap \<Rightarrow> ptr \<Rightarrow> ptr list" where
  "row_headers s r = map (header s) (r # row_of s r)"

definition live_node :: "dlx_heap \<Rightarrow> ptr \<Rightarrow> bool" where
  "live_node s r = (header s r \<in> set (headers_of s) \<and> r \<in> set (column_of s (header s r)))"

text \<open>
  The rows of the nodes \<open>rs\<close> are an exact cover of the matrix in state \<open>s\<close>: they are
  candidate rows, no column occurs twice among their columns, and their columns are all
  the live columns.
\<close>

definition exact_cover_of :: "dlx_heap \<Rightarrow> ptr list \<Rightarrow> bool" where
  "exact_cover_of s rs =
     ((\<forall>r \<in> set rs. live_node s r)
      \<and> distinct (concat (map (row_headers s) rs))
      \<and> set (concat (map (row_headers s) rs)) = set (headers_of s))"

text \<open>The row nodes recorded in \<open>solution[k .. n - 1]\<close>.\<close>

definition chosen :: "search \<Rightarrow> nat \<Rightarrow> nat \<Rightarrow> ptr list" where
  "chosen st k n = map (\<lambda>m. row_node (solution st m)) [k ..< n]"

text \<open>
  The row ids name the rows: two data nodes carry the same \<open>row_id\<close> exactly when they
  are nodes of the same row. \<open>columns_of_row N s rid\<close> are then the columns of the row
  with id \<open>rid\<close>, read off the \<open>N\<close> data nodes of the matrix.
\<close>

definition row_ids_faithful :: "nat \<Rightarrow> dlx_heap \<Rightarrow> bool" where
  "row_ids_faithful N s =
     (\<forall>i \<in> set [0 ..< N]. \<forall>j \<in> set [0 ..< N].
        (row_id s (Nd i) = row_id s (Nd j)) = (Nd j \<in> set (Nd i # row_of s (Nd i))))"

definition columns_of_row :: "nat \<Rightarrow> dlx_heap \<Rightarrow> nat option \<Rightarrow> ptr list" where
  "columns_of_row N s rid =
     map (header s) (filter (\<lambda>x. row_id s x = rid) (map Nd [0 ..< N]))"

section \<open>The rows of a text, in the words of the specification\<close>

text \<open>
  The pieces of a text between its newlines: \<open>k\<close> newlines cut it into \<open>k + 1\<close>
  segments, the last of them the characters after the last newline.
\<close>

fun segments :: "string \<Rightarrow> string list" where
  "segments [] = [[]]"
| "segments (c # cs) =
     (if c = CHR 0x0A then [] # segments cs
      else (c # hd (segments cs)) # tl (segments cs))"

text \<open>
  The rows of a text. Each newline terminates a row. When the end of the stream comes
  right after a newline, or the stream is empty, it adds no row; otherwise the characters
  after the last newline are a final row.
\<close>

definition text_rows :: "string \<Rightarrow> string list" where
  "text_rows cs = (if cs = [] \<or> last cs = CHR 0x0A then butlast (segments cs) else segments cs)"

text \<open>
  The CSR matrix of a list of rows: the column indices of the \<open>1\<close> entries row by
  row, the row pointers (entry \<open>k\<close> is the number of \<open>1\<close> entries of the first
  \<open>k\<close> rows), and the width of the widest row.
\<close>

definition ones :: "string \<Rightarrow> nat list" where
  "ones r = filter (\<lambda>i. r ! i = CHR ''1'') [0 ..< length r]"

definition col_ind_of :: "string list \<Rightarrow> nat list" where
  "col_ind_of rows = concat (map ones rows)"

definition row_ptr_of :: "string list \<Rightarrow> nat list" where
  "row_ptr_of rows = map (\<lambda>k. length (col_ind_of (take k rows))) [0 ..< length rows + 1]"

definition widest :: "string list \<Rightarrow> nat" where
  "widest rows = fold max (map length rows) 0"

text \<open>A well-formed stream holds only \<open>0\<close>, \<open>1\<close> and newline.\<close>

definition well_formed :: "string \<Rightarrow> bool" where
  "well_formed cs = list_all (\<lambda>c. c = CHR ''0'' \<or> c = CHR ''1'' \<or> c = CHR 0x0A) cs"

text \<open>
  A buffer that holds the list \<open>xs\<close>: \<open>i_next\<close> counts the elements,
  \<open>sz_cur\<close> their bytes, the first cells of the block are \<open>xs\<close>, and
  \<open>sz_max\<close> is at least 16 and at most the size of the block. \<open>good\<close> adds that
  \<open>sz_max\<close> has not outgrown the contents, so that growing cannot reach
  \<open>SIZE_MAX\<close> on a text that fits in memory.
\<close>

definition stored :: "size_t_darray \<Rightarrow> nat list \<Rightarrow> bool" where
  "stored a xs = (i_next a = length xs \<and> sz_cur a = 8 * length xs
     \<and> take (length xs) (cells (data a)) = xs
     \<and> length (cells (data a)) = size_bytes (data a) div 8
     \<and> sz_cur a \<le> sz_max a \<and> sz_max a \<le> size_bytes (data a)
     \<and> 16 \<le> sz_max a)"

definition good :: "size_t_darray \<Rightarrow> nat list \<Rightarrow> bool" where
  "good a xs = (stored a xs \<and> sz_max a \<le> max 512 (16 * length xs))"

text \<open>Every allocation request is granted.\<close>

definition all_succeed :: "answers \<Rightarrow> bool" where
  "all_succeed orc = list_all (\<lambda>b. b) orc"

text \<open>
  The reader's variables after the prefix \<open>p\<close> of the stream has been read: the
  buffers hold the CSR matrix of the rows finished so far, and the column indices of the
  row being read.
\<close>

definition consumed :: "reader \<Rightarrow> string \<Rightarrow> bool" where
  "consumed rd p =
     (good (col_ind_darray rd) (col_ind_of (butlast (segments p)) @ ones (last (segments p)))
      \<and> good (row_ptr_darray rd) (row_ptr_of (butlast (segments p)))
      \<and> max_cols rd = widest (butlast (segments p))
      \<and> col rd = length (last (segments p))
      \<and> fl_newline rd = (last (segments p) = [])
      \<and> all_succeed (alloc rd))"

section \<open>Row preselection: the error returns\<close>

lemma dlx_force_row_unfold:
  "dlx_force_row r s =
     (if down s (up s r) \<noteq> r then Some (- 1, s)
      else Option.bind (cover (header s r) s) (\<lambda>s1.
           Option.bind (cover_other_columns r s1) (\<lambda>s2. Some (0, s2))))"
  by (simp add: dlx_force_row_def is_removed_ud_def)

lemma dlx_unselect_row_unfold:
  "dlx_unselect_row r s =
     (if down s (up s r) = r then Some (- 1, s)
      else Option.bind (uncover_other_columns r s) (\<lambda>s1.
           Option.bind (uncover (header s1 r) s1) (\<lambda>s2. Some (0, s2))))"
  by (simp add: dlx_unselect_row_def is_removed_ud_def)

lemma bind_returns_zero:
  "Option.bind x (\<lambda>s1. Option.bind (f s1) (\<lambda>s2. Some (0::int, s2))) \<noteq> Some (- 1, s')"
  by (cases x; simp; case_tac "f a"; simp)

section \<open>Where the code departs from its documentation\<close>

text \<open>
  C5. For the one-row, one-column matrix the column of header 0 holds exactly one data
  node, and \<open>node_count\<close> of the header is 2: \<open>dlx_make_header_row\<close> starts every
  count at 1, where its own comment says 0.
\<close>

theorem node_count_is_one_more:
  "walk (down single_one) (Hdr 0) (Hdr 0) = Some [Nd 0] \<and> node_count single_one (Hdr 0) = 2"
  by code_simp

text \<open>
  C2. On the same matrix \<open>dlx_force_row\<close> of its only node returns 0 and unlinks the
  header from the root; the matching \<open>dlx_unselect_row\<close> of that node returns \<open>-1\<close>
  and leaves the root's \<open>right\<close> link at the root itself, where it pointed at header 0
  before the pair of calls.
\<close>

theorem unselect_after_force_fails:
  "Option.bind (dlx_force_row (Nd 0) single_one) (\<lambda>(r1, s1).
     Option.bind (dlx_unselect_row (Nd 0) s1) (\<lambda>(r2, s2).
       Some (r1, r2, right s2 Root, right single_one Root)))
   = Some (0, - 1, Root, Hdr 0)"
  by code_simp

text \<open>
  C3. The same matrix has one solution. Asked for the second (\<open>*pnsol = 2\<close>), the
  search returns size 1, not 0, and leaves \<open>*pnsol = 1\<close>.
\<close>

theorem too_few_solutions_returns_size:
  "map_option (\<lambda>(n, st). (n, pnsol st))
     (dlx_exact_cover 10 Root 0 \<lparr>heap = single_one, solution = calloc_solution, pnsol = 2\<rparr>)
   = Some (1, 1)"
  by code_simp

text \<open>
  C9. A buffer created with capacity 1 owns 8 bytes. The first append stores in them;
  the second finds no reason to grow (\<open>sz_max - sizeof(val)\<close> has wrapped around) and
  stores at index 1, outside the block.
\<close>

theorem append_capacity_one_overflows:
  "(case size_t_darray_create 1 [] of
      (Some a, _) \<Rightarrow>
        (case size_t_darray_append a 5 [] of
           Inr (r, a1, _) \<Rightarrow> (r, i_next a1, size_bytes (data a1), size_t_darray_append a1 6 [])))
   = (0, 1, 8, Inl OutOfBounds)"
  by (simp add: size_t_darray_create_def size_t_darray_append_def size_t_darray_grow_def
      store_cell_def calloc_block_def sizeof_val_def SIZE_MAX_def)

text \<open>
  C8. The stream of 32 newlines asks for 33 row pointers; the 33rd append has to grow
  the buffer. When that \<open>realloc\<close> (the fifth allocation request) fails and the later
  ones succeed, \<open>read_bcsr\<close> still returns 0, with 32 row pointers.
\<close>

lemma replicate_32:
  "replicate 32 c =
     [c, c, c, c, c, c, c, c, c, c, c, c, c, c, c, c,
      c, c, c, c, c, c, c, c, c, c, c, c, c, c, c, c]"
  by (simp add: numeral_eq_Suc)

theorem failed_append_reads_as_success:
  "(case read_bcsr \<lparr>chars = replicate 32 (CHR 0x0A), io_error = False\<rparr>
           [True, True, True, True, False] of
      Inr (r, Some (csr, n), _) \<Rightarrow> Some (r, row_ptr_size csr)
    | _ \<Rightarrow> None)
   = Some (0, 32)"
  unfolding replicate_32
  by (simp add: read_bcsr_def size_t_darray_create_def size_t_darray_append_def
      size_t_darray_grow_def store_cell_def calloc_block_def realloc_block_def sizeof_val_def
      SIZE_MAX_def append_row_ptr_def append_col_ind_def at_eof_def trim_both_def
      size_t_darray_trim_def size_t_darray_size_def size_t_darray_export_def
      DLXR_ESUCCESS_def DLXR_EALLOC_def DLXR_EDATAERR_def DLXR_EIOERR_def)

section \<open>Cover and uncover on well-formed matrices\<close>

subsection \<open>Trails\<close>

lemma trail_append:
  "trail f x (as @ m # bs) y = (trail f x as m \<and> trail f m bs y)"
  by (induction as arbitrary: x) auto

lemma trail_snoc: "trail f x (as @ [m]) y = (trail f x as m \<and> f m = y)"
  using trail_append [of f x as m "[]" y] by simp

lemma trail_unique:
  "trail f x zs y \<Longrightarrow> y \<notin> set zs \<Longrightarrow> trail f x zs' y \<Longrightarrow> y \<notin> set zs' \<Longrightarrow> zs = zs'"
proof (induction zs arbitrary: x zs')
  case Nil
  then show ?case by (cases zs') auto
next
  case (Cons z zs)
  then show ?case by (cases zs') auto
qed

lemma trail_start_fresh:
  assumes "trail f x zs y" "y \<notin> set zs"
  shows "trail f z zs' y \<Longrightarrow> y \<notin> set zs' \<Longrightarrow> z \<notin> set zs'"
proof
  assume t: "trail f z zs' y" and n: "y \<notin> set zs'" and m: "z \<in> set zs'"
  then obtain as bs where s: "zs' = as @ z # bs" by (auto simp: in_set_conv_decomp)
  then have "trail f z bs y" "y \<notin> set bs" using t n by (auto simp: trail_append)
  then have "zs' = bs" using trail_unique [OF t n] by blast
  then show False using s by simp
qed

lemma trail_distinct: "trail f x zs y \<Longrightarrow> y \<notin> set zs \<Longrightarrow> distinct zs"
proof (induction zs arbitrary: x)
  case Nil
  then show ?case by simp
next
  case (Cons z zs)
  then have t: "trail f z zs y" "y \<notin> set zs" by auto
  then have "z \<notin> set zs" using trail_start_fresh [OF t t] by blast
  then show ?case using Cons.IH [OF t] by simp
qed

lemma walk_trail:
  "(walk f y x = Some zs) = (trail f x zs y \<and> y \<notin> set zs)"
proof (induction zs arbitrary: x)
  case Nil
  show ?case by (subst walk.simps) (auto split: Option.bind_splits)
next
  case (Cons z zs)
  have "(walk f y (f x) = Some zs) = (trail f (f x) zs y \<and> y \<notin> set zs)"
    by (rule Cons.IH)
  then show ?case
    by (subst walk.simps) (cases "walk f y (f x)"; auto)
qed

lemma trail_cong:
  "(\<And>u. u \<in> set (x # zs) \<Longrightarrow> g u = f u) \<Longrightarrow> trail g x zs y = trail f x zs y"
  by (induction zs arbitrary: x) auto

lemma trail_rev:
  "trail f x zs y \<Longrightarrow> (\<And>u. u \<in> set (x # zs) \<Longrightarrow> g (f u) = u) \<Longrightarrow> trail g y (rev zs) x"
proof (induction zs arbitrary: x)
  case Nil
  then show ?case by auto
next
  case (Cons z zs)
  then have "trail g y (rev zs) z" by auto
  moreover have "g z = x" using Cons.prems by auto
  ultimately show ?case by (simp add: trail_snoc)
qed

subsection \<open>The fields after a link operation\<close>

lemma remove_ud_fields:
  "down (remove_ud j s) = (down s)(up s j := down s j)"
  "up (remove_ud j s) = (up s)(down s j := up s j)"
  "left (remove_ud j s) = left s" "right (remove_ud j s) = right s"
  "header (remove_ud j s) = header s" "node_count (remove_ud j s) = node_count s"
  "row_id (remove_ud j s) = row_id s" "col_id (remove_ud j s) = col_id s"
  by (auto simp: remove_ud_def Let_def)

lemma cover_node_fields:
  "down (cover_node j s) = (down s)(up s j := down s j)"
  "up (cover_node j s) = (up s)(down s j := up s j)"
  "left (cover_node j s) = left s" "right (cover_node j s) = right s"
  "header (cover_node j s) = header s"
  "node_count (cover_node j s) = (node_count s)(header s j := node_count s (header s j) - 1)"
  "row_id (cover_node j s) = row_id s" "col_id (cover_node j s) = col_id s"
  by (simp_all add: cover_node_def Let_def remove_ud_fields)

lemma uncover_node_fields:
  "down (uncover_node j s) = (down s)(up s j := j)"
  "up (uncover_node j s) = (up s)(down s j := j)"
  "left (uncover_node j s) = left s" "right (uncover_node j s) = right s"
  "header (uncover_node j s) = header s"
  "node_count (uncover_node j s) = (node_count s)(header s j := node_count s (header s j) + 1)"
  "row_id (uncover_node j s) = row_id s" "col_id (uncover_node j s) = col_id s"
  by (simp_all add: uncover_node_def insert_ud_def)

lemma remove_lr_fields:
  "right (remove_lr h s) = (right s)(left s h := right s h)"
  "left (remove_lr h s) = (left s)(right s h := left s h)"
  "up (remove_lr h s) = up s" "down (remove_lr h s) = down s"
  "header (remove_lr h s) = header s" "node_count (remove_lr h s) = node_count s"
  "row_id (remove_lr h s) = row_id s" "col_id (remove_lr h s) = col_id s"
  by (auto simp: remove_lr_def Let_def)

lemma insert_lr_fields:
  "right (insert_lr h s) = (right s)(left s h := h)"
  "left (insert_lr h s) = (left s)(right s h := h)"
  "up (insert_lr h s) = up s" "down (insert_lr h s) = down s"
  "header (insert_lr h s) = header s" "node_count (insert_lr h s) = node_count s"
  "row_id (insert_lr h s) = row_id s" "col_id (insert_lr h s) = col_id s"
  by (simp_all add: insert_lr_def)

subsection \<open>Excising nodes and putting them back\<close>

lemma uncover_cover_node:
  assumes "linked s j"
  shows "uncover_node j (cover_node j s) = s"
proof (rule dlx_heap.equality)
  show "down (uncover_node j (cover_node j s)) = down s"
    using assms by (auto simp: uncover_node_fields cover_node_fields linked_def)
  show "up (uncover_node j (cover_node j s)) = up s"
    using assms by (auto simp: uncover_node_fields cover_node_fields linked_def)
  show "node_count (uncover_node j (cover_node j s)) = node_count s"
    by (auto simp: uncover_node_fields cover_node_fields)
qed (simp_all add: uncover_node_fields cover_node_fields)

lemma linked_cover_node:
  assumes "linked s j" "linked s k" "j \<noteq> k"
  shows "linked (cover_node j s) k"
  using assms by (auto simp: linked_def cover_node_fields)

lemma fold_uncover_cover:
  "distinct js \<Longrightarrow> (\<forall>j \<in> set js. linked s j)
   \<Longrightarrow> fold uncover_node (rev js) (fold cover_node js s) = s"
proof (induction js arbitrary: s)
  case Nil
  then show ?case by simp
next
  case (Cons j js)
  have "\<forall>k \<in> set js. linked (cover_node j s) k"
    using Cons.prems by (auto intro: linked_cover_node)
  then have "fold uncover_node (rev js) (fold cover_node js (cover_node j s)) = cover_node j s"
    using Cons.IH Cons.prems(1) by simp
  then show ?case using Cons.prems by (simp add: uncover_cover_node)
qed

subsection \<open>What excising a node of another column leaves alone\<close>

lemma vlocalD:
  "vlocal C N s \<Longrightarrow> is_cell C N x \<Longrightarrow>
     is_cell C N (up s x) \<and> is_cell C N (down s x)
     \<and> header s (up s x) = header s x \<and> header s (down s x) = header s x"
  by (simp add: vlocal_def vertical_ok_def)

lemma vlocal_cover_node:
  assumes "vlocal C N s" "is_cell C N j"
  shows "vlocal C N (cover_node j s)"
  unfolding vlocal_def
proof (intro allI impI)
  fix x assume x: "is_cell C N x"
  note a = vlocalD [OF assms(1) x] and b = vlocalD [OF assms]
  show "vertical_ok C N (cover_node j s) x"
    unfolding vertical_ok_def cover_node_fields fun_upd_apply
    using a b by (cases "x = down s j"; cases "x = up s j"; simp)
qed

lemma vlocal_uncover_node:
  assumes "vlocal C N s" "is_cell C N j"
  shows "vlocal C N (uncover_node j s)"
  unfolding vlocal_def
proof (intro allI impI)
  fix x assume x: "is_cell C N x"
  note a = vlocalD [OF assms(1) x] and b = vlocalD [OF assms]
  show "vertical_ok C N (uncover_node j s) x"
    unfolding vertical_ok_def uncover_node_fields fun_upd_apply
    using a b assms(2) by (cases "x = down s j"; cases "x = up s j"; simp)
qed

lemma cover_node_frame:
  assumes "vlocal C N s" "is_cell C N j" "header s j \<noteq> header s x"
  shows "down (cover_node j s) x = down s x" "up (cover_node j s) x = up s x"
proof -
  note b = vlocalD [OF assms(1,2)]
  have "x \<noteq> up s j" "x \<noteq> down s j" using b assms(3) by auto
  then show "down (cover_node j s) x = down s x" "up (cover_node j s) x = up s x"
    by (simp_all add: cover_node_fields)
qed

lemma uncover_node_frame:
  assumes "vlocal C N s" "is_cell C N j" "header s j \<noteq> header s x"
  shows "down (uncover_node j s) x = down s x" "up (uncover_node j s) x = up s x"
proof -
  note b = vlocalD [OF assms(1,2)]
  have "x \<noteq> up s j" "x \<noteq> down s j" using b assms(3) by auto
  then show "down (uncover_node j s) x = down s x" "up (uncover_node j s) x = up s x"
    by (simp_all add: uncover_node_fields)
qed

lemma fold_cover_node_frame:
  assumes "vlocal C N s" "\<forall>j \<in> set js. is_cell C N j \<and> header s j \<noteq> h"
  shows "vlocal C N (fold cover_node js s)
     \<and> header (fold cover_node js s) = header s
     \<and> right (fold cover_node js s) = right s
     \<and> left (fold cover_node js s) = left s
     \<and> row_id (fold cover_node js s) = row_id s
     \<and> col_id (fold cover_node js s) = col_id s
     \<and> (\<forall>x. header s x = h \<longrightarrow> down (fold cover_node js s) x = down s x
                                \<and> up (fold cover_node js s) x = up s x)
     \<and> node_count (fold cover_node js s) h = node_count s h"
  using assms
proof (induction js arbitrary: s)
  case Nil
  then show ?case by simp
next
  case (Cons j js)
  have v: "vlocal C N (cover_node j s)"
    using Cons.prems by (simp add: vlocal_cover_node)
  have r: "\<forall>k \<in> set js. is_cell C N k \<and> header (cover_node j s) k \<noteq> h"
    using Cons.prems by (simp add: cover_node_fields)
  have f: "\<forall>x. header s x = h \<longrightarrow> down (cover_node j s) x = down s x
                                \<and> up (cover_node j s) x = up s x"
    using Cons.prems cover_node_frame [of C N s j] by auto
  have c: "node_count (cover_node j s) h = node_count s h"
    using Cons.prems by (auto simp: cover_node_fields)
  show ?case
    using Cons.IH [OF v r] f c by (simp add: cover_node_fields)
qed

lemma fold_uncover_node_frame:
  assumes "vlocal C N s" "\<forall>j \<in> set js. is_cell C N j \<and> header s j \<noteq> h"
  shows "vlocal C N (fold uncover_node js s)
     \<and> header (fold uncover_node js s) = header s
     \<and> right (fold uncover_node js s) = right s
     \<and> left (fold uncover_node js s) = left s
     \<and> (\<forall>x. header s x = h \<longrightarrow> down (fold uncover_node js s) x = down s x
                                \<and> up (fold uncover_node js s) x = up s x)"
  using assms
proof (induction js arbitrary: s)
  case Nil
  then show ?case by simp
next
  case (Cons j js)
  have v: "vlocal C N (uncover_node j s)"
    using Cons.prems by (simp add: vlocal_uncover_node)
  have r: "\<forall>k \<in> set js. is_cell C N k \<and> header (uncover_node j s) k \<noteq> h"
    using Cons.prems by (simp add: uncover_node_fields)
  have f: "\<forall>x. header s x = h \<longrightarrow> down (uncover_node j s) x = down s x
                                \<and> up (uncover_node j s) x = up s x"
    using Cons.prems uncover_node_frame [of C N s j] by auto
  show ?case
    using Cons.IH [OF v r] f by (simp add: uncover_node_fields)
qed

subsection \<open>The loops of cover and uncover as folds\<close>

lemma cover_row_fold:
  "trail (right s) j js i \<Longrightarrow> i \<notin> set js \<Longrightarrow> cover_row i j s = Some (fold cover_node js s)"
proof (induction js arbitrary: j s)
  case Nil
  then show ?case by (subst cover_row.simps) simp
next
  case (Cons z zs)
  have "trail (right (cover_node z s)) z zs i"
    using Cons.prems by (simp add: cover_node_fields)
  then have "cover_row i z (cover_node z s) = Some (fold cover_node zs (cover_node z s))"
    using Cons.IH Cons.prems(2) by simp
  then show ?case using Cons.prems by (subst cover_row.simps) auto
qed

lemma uncover_row_fold:
  "trail (left s) j js i \<Longrightarrow> i \<notin> set js \<Longrightarrow> uncover_row i j s = Some (fold uncover_node js s)"
proof (induction js arbitrary: j s)
  case Nil
  then show ?case by (subst uncover_row.simps) simp
next
  case (Cons z zs)
  have "trail (left (uncover_node z s)) z zs i"
    using Cons.prems by (simp add: uncover_node_fields)
  then have "uncover_row i z (uncover_node z s) = Some (fold uncover_node zs (uncover_node z s))"
    using Cons.IH Cons.prems(2) by simp
  then show ?case using Cons.prems by (subst uncover_row.simps) auto
qed

text \<open>
  \<open>R i\<close> lists the other nodes of the row of \<open>i\<close>, none of them in column \<open>h\<close>.
\<close>

lemma cover_rows_fold:
  assumes "vlocal C N s" "trail (down s) i0 is h" "h \<notin> set is"
    and "\<forall>i \<in> set is. header s i = h"
    and "\<forall>i \<in> set is. trail (right s) i (R i) i \<and> i \<notin> set (R i)
            \<and> (\<forall>j \<in> set (R i). is_cell C N j \<and> header s j \<noteq> h)"
  shows "cover_rows h i0 s = Some (fold cover_node (concat (map R is)) s)"
  using assms
proof (induction "is" arbitrary: i0 s)
  case Nil
  then show ?case by (subst cover_rows.simps) simp
next
  case (Cons i rest)
  let ?s1 = "fold cover_node (R i) s"
  have row: "cover_row i i s = Some ?s1"
    using Cons.prems(5) by (simp add: cover_row_fold)
  have fr: "vlocal C N ?s1 \<and> header ?s1 = header s \<and> right ?s1 = right s
     \<and> left ?s1 = left s
     \<and> row_id ?s1 = row_id s
     \<and> col_id ?s1 = col_id s
     \<and> (\<forall>x. header s x = h \<longrightarrow> down ?s1 x = down s x \<and> up ?s1 x = up s x)
     \<and> node_count ?s1 h = node_count s h"
    using fold_cover_node_frame [OF Cons.prems(1), of "R i" h] Cons.prems(5) by simp
  have t: "trail (down ?s1) i rest h"
  proof -
    have "trail (down s) i rest h" using Cons.prems(2) by simp
    moreover have "\<And>u. u \<in> set (i # rest) \<Longrightarrow> down ?s1 u = down s u"
      using fr Cons.prems(4) by auto
    ultimately show ?thesis using trail_cong [of i rest "down ?s1" "down s" h] by blast
  qed
  have "cover_rows h i ?s1 = Some (fold cover_node (concat (map R rest)) ?s1)"
    using Cons.IH [of ?s1 i] fr t Cons.prems(3,4,5) by simp
  then show ?case
    using row Cons.prems(2,3) by (subst cover_rows.simps) auto
qed

lemma uncover_rows_fold:
  assumes "vlocal C N s" "trail (up s) i0 is h" "h \<notin> set is"
    and "\<forall>i \<in> set is. header s i = h"
    and "\<forall>i \<in> set is. trail (left s) i (R i) i \<and> i \<notin> set (R i)
            \<and> (\<forall>j \<in> set (R i). is_cell C N j \<and> header s j \<noteq> h)"
  shows "uncover_rows h i0 s = Some (fold uncover_node (concat (map R is)) s)"
  using assms
proof (induction "is" arbitrary: i0 s)
  case Nil
  then show ?case by (subst uncover_rows.simps) simp
next
  case (Cons i rest)
  let ?s1 = "fold uncover_node (R i) s"
  have row: "uncover_row i i s = Some ?s1"
    using Cons.prems(5) by (simp add: uncover_row_fold)
  have fr: "vlocal C N ?s1 \<and> header ?s1 = header s \<and> right ?s1 = right s
     \<and> left ?s1 = left s
     \<and> (\<forall>x. header s x = h \<longrightarrow> down ?s1 x = down s x \<and> up ?s1 x = up s x)"
    using fold_uncover_node_frame [OF Cons.prems(1), of "R i" h] Cons.prems(5) by simp
  have t: "trail (up ?s1) i rest h"
  proof -
    have "trail (up s) i rest h" using Cons.prems(2) by simp
    moreover have "\<And>u. u \<in> set (i # rest) \<Longrightarrow> up ?s1 u = up s u"
      using fr Cons.prems(4) by auto
    ultimately show ?thesis using trail_cong [of i rest "up ?s1" "up s" h] by blast
  qed
  have "uncover_rows h i ?s1 = Some (fold uncover_node (concat (map R rest)) ?s1)"
    using Cons.IH [of ?s1 i] fr t Cons.prems(3,4,5) by simp
  then show ?case
    using row Cons.prems(2,3) by (subst uncover_rows.simps) auto
qed

subsection \<open>What a well-formed matrix provides\<close>

lemma is_cell_cases:
  "is_cell C N x = ((\<exists>c < C. x = Hdr c) \<or> (\<exists>i < N. x = Nd i))"
  by (cases x) (auto simp: is_cell_def is_hdr_def is_nd_def)

lemma is_nd_iff: "is_nd N x = (\<exists>i < N. x = Nd i)"
  by (cases x) (auto simp: is_nd_def)

lemma is_hdr_iff: "is_hdr C x = (\<exists>c < C. x = Hdr c)"
  by (cases x) (auto simp: is_hdr_def)

lemma typed_at_hdr:
  "typed C N s \<Longrightarrow> c < C \<Longrightarrow>
     header s (Hdr c) = Hdr c \<and> is_top C (left s (Hdr c)) \<and> is_top C (right s (Hdr c))
     \<and> vertical_ok C N s (Hdr c)"
  by (simp add: typed_def)

lemma typed_at_nd:
  "typed C N s \<Longrightarrow> i < N \<Longrightarrow>
     is_nd N (left s (Nd i)) \<and> is_nd N (right s (Nd i))
     \<and> left s (right s (Nd i)) = Nd i \<and> right s (left s (Nd i)) = Nd i
     \<and> is_hdr C (header s (Nd i)) \<and> vertical_ok C N s (Nd i)"
  by (simp add: typed_def)

lemma typed_vlocal: "typed C N s \<Longrightarrow> vlocal C N s"
  unfolding vlocal_def is_cell_cases
  using typed_at_hdr [of C N s] typed_at_nd [of C N s] by blast

lemma typed_nd:
  assumes "typed C N s" "is_nd N x"
  shows "is_nd N (left s x)" "is_nd N (right s x)" "left s (right s x) = x"
    "right s (left s x) = x" "is_hdr C (header s x)"
proof -
  obtain i where "i < N" "x = Nd i" using assms(2) by (auto simp: is_nd_iff)
  then show "is_nd N (left s x)" "is_nd N (right s x)" "left s (right s x) = x"
    "right s (left s x) = x" "is_hdr C (header s x)"
    using typed_at_nd [OF assms(1), of i] by simp_all
qed

lemma typed_hdr:
  assumes "typed C N s" "is_hdr C h"
  shows "header s h = h" "is_top C (left s h)" "is_top C (right s h)"
proof -
  obtain c where "c < C" "h = Hdr c" using assms(2) by (auto simp: is_hdr_iff)
  then show "header s h = h" "is_top C (left s h)" "is_top C (right s h)"
    using typed_at_hdr [OF assms(1), of c] by simp_all
qed

lemma trail_closed:
  assumes "trail f x zs y" "P x" and step: "\<And>u. P u \<Longrightarrow> P (f u)"
  shows "\<forall>z \<in> set zs. P z"
  using assms(1,2)
proof (induction zs arbitrary: x)
  case Nil
  then show ?case by simp
next
  case (Cons z zs)
  have "P z" using step [OF Cons.prems(2)] Cons.prems(1) by simp
  moreover have "trail f z zs y" using Cons.prems(1) by simp
  ultimately show ?case using Cons.IH by simp
qed

lemma walk_row_of: "walk (right s) x x \<noteq> None \<Longrightarrow> walk (right s) x x = Some (row_of s x)"
  by (cases "walk (right s) x x") (simp_all add: row_of_def)

lemma walk_column_of: "walk (down s) h h \<noteq> None \<Longrightarrow> walk (down s) h h = Some (column_of s h)"
  by (cases "walk (down s) h h") (simp_all add: column_of_def)

lemma walk_headers_of:
  "walk (right s) Root Root \<noteq> None \<Longrightarrow> walk (right s) Root Root = Some (headers_of s)"
  by (cases "walk (right s) Root Root") (simp_all add: headers_of_def)

lemma valid_parts:
  assumes "valid C N s"
  shows "typed C N s"
    and "\<forall>i \<in> set [0 ..< N]. walk (right s) (Nd i) (Nd i) \<noteq> None
             \<and> distinct (map (header s) (Nd i # row_of s (Nd i)))"
    and "walk (right s) Root Root \<noteq> None"
    and "\<forall>h \<in> set (headers_of s). is_hdr C h"
    and "\<forall>x \<in> set (Root # headers_of s). left s (right s x) = x \<and> right s (left s x) = x"
    and "\<forall>h \<in> set (headers_of s).
             walk (down s) h h \<noteq> None
             \<and> (\<forall>x \<in> set (h # column_of s h). up s (down s x) = x \<and> down s (up s x) = x)
             \<and> (\<forall>i \<in> set (column_of s h). \<forall>j \<in> set (row_of s i).
                   header s j \<in> set (headers_of s) \<and> j \<in> set (column_of s (header s j)))"
  using assms unfolding valid_def by - (elim conjE, assumption)+

lemma valid_typed: "valid C N s \<Longrightarrow> typed C N s"
  by (rule valid_parts(1))

lemma valid_at_nd:
  assumes "valid C N s" "i < N"
  shows "walk (right s) (Nd i) (Nd i) \<noteq> None"
    "distinct (map (header s) (Nd i # row_of s (Nd i)))"
proof -
  have "i \<in> set [0 ..< N]" using assms(2) by simp
  then show "walk (right s) (Nd i) (Nd i) \<noteq> None"
    "distinct (map (header s) (Nd i # row_of s (Nd i)))"
    using valid_parts(2) [OF assms(1)] by blast+
qed

lemma valid_ring:
  "valid C N s \<Longrightarrow>
     walk (right s) Root Root \<noteq> None
     \<and> (\<forall>h \<in> set (headers_of s). is_hdr C h)
     \<and> (\<forall>x \<in> set (Root # headers_of s). left s (right s x) = x \<and> right s (left s x) = x)"
  using valid_parts(3,4,5) by blast

lemma valid_at_live:
  "valid C N s \<Longrightarrow> h \<in> set (headers_of s) \<Longrightarrow>
     walk (down s) h h \<noteq> None
     \<and> (\<forall>x \<in> set (h # column_of s h). up s (down s x) = x \<and> down s (up s x) = x)
     \<and> (\<forall>i \<in> set (column_of s h). \<forall>j \<in> set (row_of s i).
           header s j \<in> set (headers_of s) \<and> j \<in> set (column_of s (header s j)))"
  using valid_parts(6) by blast

lemma valid_row:
  assumes "valid C N s" "is_nd N i"
  shows "trail (right s) i (row_of s i) i" "i \<notin> set (row_of s i)"
    "distinct (map (header s) (i # row_of s i))" "\<forall>j \<in> set (row_of s i). is_nd N j"
proof -
  obtain k where k: "k < N" "i = Nd k" using assms(2) by (auto simp: is_nd_iff)
  have w: "walk (right s) i i \<noteq> None" and d: "distinct (map (header s) (i # row_of s i))"
    using valid_at_nd [OF assms(1) k(1)] k(2) by blast+
  show t: "trail (right s) i (row_of s i) i" and "i \<notin> set (row_of s i)"
    using walk_row_of [OF w] by (simp_all add: walk_trail)
  show "distinct (map (header s) (i # row_of s i))" by (rule d)
  show "\<forall>j \<in> set (row_of s i). is_nd N j"
    using trail_closed [OF t, of "is_nd N"] assms(2) typed_nd(2) [OF valid_typed [OF assms(1)]]
    by blast
qed

lemma valid_headers:
  assumes "valid C N s"
  shows "trail (right s) Root (headers_of s) Root" "Root \<notin> set (headers_of s)"
    "\<forall>h \<in> set (headers_of s). is_hdr C h"
    "\<forall>x \<in> set (Root # headers_of s). left s (right s x) = x \<and> right s (left s x) = x"
proof -
  have w: "walk (right s) Root Root \<noteq> None" using valid_ring [OF assms] by blast
  show "trail (right s) Root (headers_of s) Root" "Root \<notin> set (headers_of s)"
    using walk_headers_of [OF w] by (simp_all add: walk_trail)
  show "\<forall>h \<in> set (headers_of s). is_hdr C h"
    "\<forall>x \<in> set (Root # headers_of s). left s (right s x) = x \<and> right s (left s x) = x"
    using valid_ring [OF assms] by blast+
qed

lemma valid_column:
  assumes "valid C N s" "h \<in> set (headers_of s)"
  shows "trail (down s) h (column_of s h) h" "h \<notin> set (column_of s h)"
    "\<forall>x \<in> set (h # column_of s h). up s (down s x) = x \<and> down s (up s x) = x"
    "\<forall>i \<in> set (column_of s h). header s i = h \<and> is_nd N i"
    "\<forall>i \<in> set (column_of s h). \<forall>j \<in> set (row_of s i).
        header s j \<in> set (headers_of s) \<and> j \<in> set (column_of s (header s j))"
proof -
  note live = valid_at_live [OF assms]
  have w: "walk (down s) h h \<noteq> None" using live by blast
  show t: "trail (down s) h (column_of s h) h" and n: "h \<notin> set (column_of s h)"
    using walk_column_of [OF w] by (simp_all add: walk_trail)
  show "\<forall>x \<in> set (h # column_of s h). up s (down s x) = x \<and> down s (up s x) = x"
    "\<forall>i \<in> set (column_of s h). \<forall>j \<in> set (row_of s i).
        header s j \<in> set (headers_of s) \<and> j \<in> set (column_of s (header s j))"
    using live by blast+
  have hh: "is_hdr C h" using valid_headers(3) [OF assms(1)] assms(2) by blast
  have ty: "typed C N s" using assms(1) by (rule valid_typed)
  have hd: "header s h = h" using typed_hdr(1) [OF ty hh] .
  let ?P = "\<lambda>x. is_cell C N x \<and> header s x = h"
  have "\<forall>z \<in> set (column_of s h). ?P z"
  proof (rule trail_closed [OF t])
    show "?P h" using hh hd by (simp add: is_cell_def)
    show "\<And>u. ?P u \<Longrightarrow> ?P (down s u)"
      using vlocalD [OF typed_vlocal [OF ty]] by auto
  qed
  moreover have "\<And>z. ?P z \<Longrightarrow> z \<noteq> h \<Longrightarrow> is_nd N z"
    using typed_hdr(1) [OF ty] by (auto simp: is_cell_def)
  ultimately show "\<forall>i \<in> set (column_of s h). header s i = h \<and> is_nd N i"
    using n by metis
qed

subsection \<open>Rows are rings\<close>

lemma row_of_rotate:
  assumes "valid C N s" "is_nd N i" "j \<in> set (row_of s i)"
  shows "i \<in> set (row_of s j)"
proof -
  note r = valid_row [OF assms(1,2)]
  obtain as bs where ab: "row_of s i = as @ j # bs"
    using assms(3) by (auto simp: in_set_conv_decomp)
  have d: "distinct (row_of s i)" using trail_distinct [OF r(1,2)] .
  have "trail (right s) i as j" "trail (right s) j bs i"
    using r(1) unfolding ab trail_append by simp_all
  then have t: "trail (right s) j (bs @ i # as) j" by (simp add: trail_append)
  have n: "j \<notin> set (bs @ i # as)" using d r(2) unfolding ab by auto
  have "walk (right s) j j = Some (bs @ i # as)" using t n by (simp add: walk_trail)
  then show ?thesis by (simp add: row_of_def)
qed

lemma rows_disjoint:
  assumes "valid C N s" "is_nd N i" "is_nd N k" "header s i = header s k" "i \<noteq> k"
  shows "set (row_of s i) \<inter> set (row_of s k) = {}"
proof (rule ccontr)
  assume "set (row_of s i) \<inter> set (row_of s k) \<noteq> {}"
  then obtain j where j: "j \<in> set (row_of s i)" "j \<in> set (row_of s k)" by blast
  have nj: "is_nd N j" using valid_row(4) [OF assms(1,2)] j(1) by blast
  have m: "i \<in> set (row_of s j)" "k \<in> set (row_of s j)"
    using row_of_rotate [OF assms(1,2) j(1)] row_of_rotate [OF assms(1,3) j(2)] by simp_all
  have "inj_on (header s) (set (row_of s j))"
    using valid_row(3) [OF assms(1) nj] by (simp add: distinct_map)
  then show False using m assms(4,5) by (auto dest: inj_onD)
qed

lemma distinct_concat_rows:
  assumes "distinct is" "\<forall>i \<in> set is. distinct (R i)"
    "\<forall>i \<in> set is. \<forall>k \<in> set is. i \<noteq> k \<longrightarrow> set (R i) \<inter> set (R k) = {}"
  shows "distinct (concat (map R is))"
  using assms
proof (induction "is")
  case Nil
  then show ?case by simp
next
  case (Cons i rest)
  have "distinct (concat (map R rest))" using Cons by simp
  moreover have "set (R i) \<inter> set (concat (map R rest)) = {}"
    using Cons.prems(1,3) by fastforce
  ultimately show ?case using Cons.prems(2) by simp
qed

lemma row_header_differs:
  assumes "valid C N s" "is_nd N i" "j \<in> set (row_of s i)"
  shows "header s j \<noteq> header s i"
proof
  assume "header s j = header s i"
  then have "header s i \<in> header s ` set (row_of s i)" using assms(3) by (metis imageI)
  then show False using valid_row(3) [OF assms(1,2)] by simp
qed

lemma column_rows_distinct:
  assumes "valid C N s" "h \<in> set (headers_of s)"
  shows "distinct (concat (map (row_of s) (column_of s h)))"
proof (rule distinct_concat_rows)
  note c = valid_column [OF assms]
  show "distinct (column_of s h)" using trail_distinct [OF c(1,2)] .
  show "\<forall>i \<in> set (column_of s h). distinct (row_of s i)"
  proof
    fix i assume "i \<in> set (column_of s h)"
    then have "is_nd N i" using c(4) by blast
    then show "distinct (row_of s i)"
      using trail_distinct [OF valid_row(1,2) [OF assms(1)]] by blast
  qed
  show "\<forall>i \<in> set (column_of s h). \<forall>k \<in> set (column_of s h).
          i \<noteq> k \<longrightarrow> set (row_of s i) \<inter> set (row_of s k) = {}"
    using rows_disjoint [OF assms(1)] c(4) by metis
qed

lemma column_rows_linked:
  assumes "valid C N s" "h \<in> set (headers_of s)" "i \<in> set (column_of s h)"
    "j \<in> set (row_of s i)"
  shows "linked s j"
proof -
  have "header s j \<in> set (headers_of s)" "j \<in> set (column_of s (header s j))"
    using valid_column(5) [OF assms(1,2)] assms(3,4) by blast+
  then show ?thesis
    using valid_column(3) [OF assms(1), of "header s j"] by (simp add: linked_def)
qed

subsection \<open>Cover and uncover are inverse\<close>

lemma not_top_nd: "is_nd N x \<Longrightarrow> \<not> is_top C x"
  by (cases x) (auto simp: is_nd_def is_top_def is_hdr_def)

lemma vlocal_cong:
  "up t = up s \<Longrightarrow> down t = down s \<Longrightarrow> header t = header s \<Longrightarrow> vlocal C N t = vlocal C N s"
  by (simp add: vlocal_def vertical_ok_def)

lemma insert_remove_lr:
  assumes "left s (right s h) = h" "right s (left s h) = h"
  shows "insert_lr h (remove_lr h s) = s"
proof (rule dlx_heap.equality)
  show "left (insert_lr h (remove_lr h s)) = left s"
    using assms by (auto simp: insert_lr_fields remove_lr_fields)
  show "right (insert_lr h (remove_lr h s)) = right s"
    using assms by (auto simp: insert_lr_fields remove_lr_fields)
qed (simp_all add: insert_lr_fields remove_lr_fields)

lemma covered_nodes_cells:
  assumes "valid C N s" "h \<in> set (headers_of s)"
  shows "\<forall>j \<in> set (covered_nodes s h). is_nd N j \<and> header s j \<noteq> h \<and> linked s j"
proof
  fix j assume "j \<in> set (covered_nodes s h)"
  then obtain i where i: "i \<in> set (column_of s h)" "j \<in> set (row_of s i)"
    by (auto simp: covered_nodes_def)
  note c = valid_column [OF assms]
  have ni: "is_nd N i" and hi: "header s i = h" using c(4) i(1) by blast+
  show "is_nd N j \<and> header s j \<noteq> h \<and> linked s j"
    using valid_row(4) [OF assms(1) ni] i(2) row_header_differs [OF assms(1) ni i(2)] hi
      column_rows_linked [OF assms i] by auto
qed

lemma cover_eq:
  assumes "valid C N s" "h \<in> set (headers_of s)"
  shows "cover h s = Some (fold cover_node (covered_nodes s h) (remove_lr h s))"
proof -
  let ?s0 = "remove_lr h s"
  note c = valid_column [OF assms]
  note ty = valid_typed [OF assms(1)]
  have hh: "is_hdr C h" using valid_headers(3) [OF assms(1)] assms(2) by blast
  have top: "is_top C (left s h)" using typed_hdr(2) [OF ty hh] .
  have v0: "vlocal C N ?s0"
    using typed_vlocal [OF ty] vlocal_cong [of ?s0 s C N] by (simp add: remove_lr_fields)
  have t0: "trail (down ?s0) h (column_of s h) h" using c(1) by (simp add: remove_lr_fields)
  have h0: "\<forall>i \<in> set (column_of s h). header ?s0 i = h"
    using c(4) by (simp add: remove_lr_fields)
  have r0: "\<forall>i \<in> set (column_of s h). trail (right ?s0) i (row_of s i) i \<and> i \<notin> set (row_of s i)
            \<and> (\<forall>j \<in> set (row_of s i). is_cell C N j \<and> header ?s0 j \<noteq> h)"
  proof
    fix i assume i: "i \<in> set (column_of s h)"
    then have ni: "is_nd N i" and hi: "header s i = h" using c(4) by blast+
    note r = valid_row [OF assms(1) ni]
    have "\<And>u. u \<in> set (i # row_of s i) \<Longrightarrow> right ?s0 u = right s u"
    proof -
      fix u assume "u \<in> set (i # row_of s i)"
      then have "is_nd N u" using ni r(4) by auto
      then have "u \<noteq> left s h" using top not_top_nd by blast
      then show "right ?s0 u = right s u" by (simp add: remove_lr_fields)
    qed
    then have "trail (right ?s0) i (row_of s i) i"
      using r(1) trail_cong [of i "row_of s i" "right ?s0" "right s" i] by blast
    moreover have "\<forall>j \<in> set (row_of s i). is_cell C N j \<and> header ?s0 j \<noteq> h"
      using r(4) row_header_differs [OF assms(1) ni] hi
      by (auto simp: is_cell_def remove_lr_fields)
    ultimately show "trail (right ?s0) i (row_of s i) i \<and> i \<notin> set (row_of s i)
            \<and> (\<forall>j \<in> set (row_of s i). is_cell C N j \<and> header ?s0 j \<noteq> h)"
      using r(2) by blast
  qed
  show ?thesis
    unfolding cover_def covered_nodes_def
    by (rule cover_rows_fold [OF v0 t0 c(2) h0 r0])
qed

lemma uncover_eq:
  assumes "valid C N s" "h \<in> set (headers_of s)"
  shows "uncover h (fold cover_node (covered_nodes s h) (remove_lr h s)) = Some s"
proof -
  let ?s0 = "remove_lr h s"
  let ?J = "covered_nodes s h"
  let ?s1 = "fold cover_node ?J ?s0"
  note c = valid_column [OF assms]
  note ty = valid_typed [OF assms(1)]
  note cn = covered_nodes_cells [OF assms]
  have hh: "is_hdr C h" using valid_headers(3) [OF assms(1)] assms(2) by blast
  have hd: "header s h = h" using typed_hdr(1) [OF ty hh] .
  have top: "is_top C (right s h)" using typed_hdr(3) [OF ty hh] .
  have v0: "vlocal C N ?s0"
    using typed_vlocal [OF ty] vlocal_cong [of ?s0 s C N] by (simp add: remove_lr_fields)
  have j0: "\<forall>j \<in> set ?J. is_cell C N j \<and> header ?s0 j \<noteq> h"
    using cn by (simp add: is_cell_def remove_lr_fields)
  note fr = fold_cover_node_frame [OF v0 j0]
  have v1: "vlocal C N ?s1" using fr by blast
  have hd1: "header ?s1 = header s" using fr by (simp add: remove_lr_fields)
  have l1: "left ?s1 = left ?s0" using fr by blast
  have up1: "\<And>x. header s x = h \<Longrightarrow> up ?s1 x = up s x"
    using fr by (simp add: remove_lr_fields)
  have tu: "trail (up s) h (rev (column_of s h)) h"
    using trail_rev [OF c(1), of "up s"] c(3) by simp
  have t1: "trail (up ?s1) h (rev (column_of s h)) h"
  proof -
    have "\<And>u. u \<in> set (h # rev (column_of s h)) \<Longrightarrow> up ?s1 u = up s u"
      using up1 hd c(4) by auto
    then show ?thesis
      using tu trail_cong [of h "rev (column_of s h)" "up ?s1" "up s" h] by blast
  qed
  have n1: "h \<notin> set (rev (column_of s h))" using c(2) by simp
  have h1: "\<forall>i \<in> set (rev (column_of s h)). header ?s1 i = h"
    using c(4) hd1 by simp
  have r1: "\<forall>i \<in> set (rev (column_of s h)).
       trail (left ?s1) i ((rev \<circ> row_of s) i) i \<and> i \<notin> set ((rev \<circ> row_of s) i)
       \<and> (\<forall>j \<in> set ((rev \<circ> row_of s) i). is_cell C N j \<and> header ?s1 j \<noteq> h)"
  proof
    fix i assume "i \<in> set (rev (column_of s h))"
    then have i: "i \<in> set (column_of s h)" by simp
    then have ni: "is_nd N i" and hi: "header s i = h" using c(4) by blast+
    note r = valid_row [OF assms(1) ni]
    have nds: "\<And>u. u \<in> set (i # row_of s i) \<Longrightarrow> is_nd N u" using ni r(4) by auto
    have tl: "trail (left s) i (rev (row_of s i)) i"
      using trail_rev [OF r(1), of "left s"] typed_nd(3) [OF ty] nds by blast
    have "\<And>u. u \<in> set (i # rev (row_of s i)) \<Longrightarrow> left ?s1 u = left s u"
    proof -
      fix u assume "u \<in> set (i # rev (row_of s i))"
      then have "is_nd N u" using nds by auto
      then have "u \<noteq> right s h" using top not_top_nd by blast
      then show "left ?s1 u = left s u" by (simp add: l1 remove_lr_fields)
    qed
    then have "trail (left ?s1) i (rev (row_of s i)) i"
      using tl trail_cong [of i "rev (row_of s i)" "left ?s1" "left s" i] by blast
    moreover have "\<forall>j \<in> set (rev (row_of s i)). is_cell C N j \<and> header ?s1 j \<noteq> h"
      using r(4) row_header_differs [OF assms(1) ni] hi hd1
      by (auto simp: is_cell_def)
    ultimately show "trail (left ?s1) i ((rev \<circ> row_of s) i) i \<and> i \<notin> set ((rev \<circ> row_of s) i)
       \<and> (\<forall>j \<in> set ((rev \<circ> row_of s) i). is_cell C N j \<and> header ?s1 j \<noteq> h)"
      using r(2) by simp
  qed
  have rv: "concat (map (rev \<circ> row_of s) (rev (column_of s h))) = rev ?J"
    by (simp add: covered_nodes_def rev_concat rev_map)
  have u: "uncover_rows h h ?s1 = Some (fold uncover_node (rev ?J) ?s1)"
    by (rule uncover_rows_fold [OF v1 t1 n1 h1 r1, unfolded rv])
  have lk: "\<forall>j \<in> set ?J. linked ?s0 j"
    using cn by (simp add: linked_def remove_lr_fields)
  have d: "distinct ?J"
    using column_rows_distinct [OF assms] by (simp add: covered_nodes_def)
  have restored: "fold uncover_node (rev ?J) ?s1 = ?s0"
    using fold_uncover_cover [OF d lk] .
  have sym: "left s (right s h) = h" "right s (left s h) = h"
    using valid_headers(4) [OF assms(1)] assms(2) by auto
  show ?thesis
    unfolding uncover_def u restored by (simp add: insert_remove_lr [OF sym])
qed

lemma demo_built:
  "dlx_add_row (Nd 5) (\<lambda>i. Hdr 2) 1 (dlx_make_row (Nd 5) (Some 3) 1
   (dlx_add_row (Nd 4) (\<lambda>i. Hdr 0) 1 (dlx_make_row (Nd 4) (Some 2) 1
   (dlx_add_row (Nd 2) (\<lambda>i. Hdr (i + 1)) 2 (dlx_make_row (Nd 2) (Some 1) 2
   (dlx_add_row (Nd 0) (\<lambda>i. Hdr i) 2 (dlx_make_row (Nd 0) (Some 0) 2
   (dlx_make_header_row Root (Hdr 0) 3 calloc_heap)))))))) = demo"
proof -
  have u: "[0 ..< Suc 0] = [0]" "[0 ..< 2] = [0, Suc 0]" "[Suc 0 ..< 2] = [Suc 0]"
    by (simp_all add: upt_rec)
  show ?thesis
    by (simp add: demo_def dlx_make_header_row_def dlx_make_row_def dlx_add_row_def set_root_def
        set_header_def set_row_node_def append_node_to_column_def insert_ud_def calloc_heap_def
        Let_def u fun_eq_iff numeral_2_eq_2 numeral_3_eq_3)
qed

lemma demo_valid: "valid 3 6 demo"
  by code_simp

lemma demo_headers: "headers_of demo = [Hdr 0, Hdr 1, Hdr 2]"
  by code_simp

text \<open>
  C4. For a live column header \<open>h\<close> of a well-formed matrix state, \<open>cover(h)\<close>
  returns, having unlinked \<open>h\<close> from the header ring and excised the nodes
  \<open>covered_nodes s h\<close> in order, and \<open>uncover(h)\<close> run on the result returns the
  state \<open>cover\<close> was given: every link and every \<open>node_count\<close> is as before.
\<close>

theorem cover_uncover_inverse:
  assumes "valid C N s" "h \<in> set (headers_of s)"
  shows "\<exists>s'. cover h s = Some s'
     \<and> s' = fold cover_node (covered_nodes s h) (remove_lr h s)
     \<and> uncover h s' = Some s"
  using cover_eq [OF assms] uncover_eq [OF assms] by simp

theorem cover_uncover_inverse_witness:
  "valid 3 6 demo \<and> Hdr 1 \<in> set (headers_of demo)
   \<and> (\<exists>s'. cover (Hdr 1) demo = Some s'
        \<and> s' = fold cover_node (covered_nodes demo (Hdr 1)) (remove_lr (Hdr 1) demo)
        \<and> uncover (Hdr 1) s' = Some demo)"
proof -
  have h: "Hdr 1 \<in> set (headers_of demo)" by (simp add: demo_headers)
  show ?thesis
    using demo_valid h cover_uncover_inverse [OF demo_valid h] by blast
qed

subsection \<open>What cover leaves of the covered column\<close>

text \<open>
  C10. For a live column header \<open>h\<close> of a well-formed matrix state, \<open>cover(h)\<close>
  returns and leaves the six fields of \<open>h\<close> as they were, \<open>node_count\<close> among
  them; the walk down from \<open>h\<close> still visits exactly the nodes of the column as it was
  when \<open>cover\<close> was called, and each of them is a data node, vertically linked, with
  its vertical links unchanged.
\<close>

theorem cover_keeps_own_column:
  assumes "valid C N s" "h \<in> set (headers_of s)"
  shows "\<exists>s'. cover h s = Some s'
     \<and> left s' h = left s h \<and> right s' h = right s h
     \<and> up s' h = up s h \<and> down s' h = down s h
     \<and> header s' h = header s h \<and> node_count s' h = node_count s h
     \<and> walk (down s') h h = Some (column_of s h)
     \<and> (\<forall>x \<in> set (column_of s h). is_nd N x \<and> linked s' x
            \<and> up s' x = up s x \<and> down s' x = down s x)"
proof -
  let ?s0 = "remove_lr h s"
  let ?J = "covered_nodes s h"
  let ?s1 = "fold cover_node ?J ?s0"
  note c = valid_column [OF assms]
  note ty = valid_typed [OF assms(1)]
  note cn = covered_nodes_cells [OF assms]
  have hh: "is_hdr C h" using valid_headers(3) [OF assms(1)] assms(2) by blast
  have hd: "header s h = h" using typed_hdr(1) [OF ty hh] .
  have v0: "vlocal C N ?s0"
    using typed_vlocal [OF ty] vlocal_cong [of ?s0 s C N] by (simp add: remove_lr_fields)
  have j0: "\<forall>j \<in> set ?J. is_cell C N j \<and> header ?s0 j \<noteq> h"
    using cn by (simp add: is_cell_def remove_lr_fields)
  note fr = fold_cover_node_frame [OF v0 j0]
  have same: "\<And>x. header s x = h \<Longrightarrow> up ?s1 x = up s x \<and> down ?s1 x = down s x"
    using fr by (simp add: remove_lr_fields)
  have l: "left ?s1 h = left s h" "right ?s1 h = right s h"
    using fr by (simp_all add: remove_lr_fields)
  have cnt: "node_count ?s1 h = node_count s h" "header ?s1 h = header s h"
    using fr by (simp_all add: remove_lr_fields)
  have colh: "\<forall>x \<in> set (h # column_of s h). header s x = h" using c(4) hd by simp
  have t1: "trail (down ?s1) h (column_of s h) h"
    using c(1) trail_cong [of h "column_of s h" "down ?s1" "down s" h] same colh by blast
  have w: "walk (down ?s1) h h = Some (column_of s h)"
    using t1 c(2) by (simp add: walk_trail)
  have lk: "\<forall>x \<in> set (column_of s h). is_nd N x \<and> linked ?s1 x
            \<and> up ?s1 x = up s x \<and> down ?s1 x = down s x"
  proof
    fix x assume x: "x \<in> set (column_of s h)"
    then have hx: "header s x = h" and nx: "is_nd N x" using c(4) by blast+
    have cx: "is_cell C N x" using nx by (simp add: is_cell_def)
    have nb: "header s (up s x) = h" "header s (down s x) = h"
      using vlocalD [OF typed_vlocal [OF ty] cx] hx by simp_all
    have "up s (down s x) = x" "down s (up s x) = x" using c(3) x by simp_all
    then have "linked ?s1 x"
      using same [OF hx] same [OF nb(1)] same [OF nb(2)] by (simp add: linked_def)
    then show "is_nd N x \<and> linked ?s1 x \<and> up ?s1 x = up s x \<and> down ?s1 x = down s x"
      using nx same [OF hx] by simp
  qed
  show ?thesis
    using cover_eq [OF assms] l cnt same [OF hd] w lk by simp
qed

theorem cover_keeps_own_column_witness:
  "valid 3 6 demo \<and> Hdr 1 \<in> set (headers_of demo)
   \<and> (\<exists>s'. cover (Hdr 1) demo = Some s'
     \<and> left s' (Hdr 1) = left demo (Hdr 1) \<and> right s' (Hdr 1) = right demo (Hdr 1)
     \<and> up s' (Hdr 1) = up demo (Hdr 1) \<and> down s' (Hdr 1) = down demo (Hdr 1)
     \<and> header s' (Hdr 1) = header demo (Hdr 1)
     \<and> node_count s' (Hdr 1) = node_count demo (Hdr 1)
     \<and> walk (down s') (Hdr 1) (Hdr 1) = Some (column_of demo (Hdr 1))
     \<and> (\<forall>x \<in> set (column_of demo (Hdr 1)). is_nd 6 x \<and> linked s' x
            \<and> up s' x = up demo x \<and> down s' x = down demo x))"
proof -
  have h: "Hdr 1 \<in> set (headers_of demo)" by (simp add: demo_headers)
  show ?thesis
    using demo_valid h cover_keeps_own_column [OF demo_valid h] by blast
qed

section \<open>Covering a column keeps the matrix well-formed\<close>


subsection \<open>Taking a node out of a ring\<close>

lemma trail_redirect_last:
  assumes "trail f r as x" "r \<notin> set as" "distinct as"
  shows "trail (f(last (r # as) := q)) r as q"
  using assms
proof (induction as arbitrary: r)
  case Nil
  then show ?case by simp
next
  case (Cons a as)
  define l where "l = last (a # as)"
  have eq: "last (r # a # as) = l" by (simp add: l_def)
  have "trail f a as x" "a \<notin> set as" "distinct as" using Cons.prems by simp_all
  then have "trail (f(l := q)) a as q"
    unfolding l_def by (rule Cons.IH)
  moreover have "r \<noteq> l"
    unfolding l_def using Cons.prems(2) last_in_set [of "a # as"] by auto
  moreover have "f r = a" using Cons.prems(1) by simp
  ultimately show ?case unfolding eq trail.simps by (simp only: fun_upd_other simp_thms)
qed

lemma trail_last:
  assumes "trail f r as x" "\<forall>u \<in> set (r # as). g (f u) = u"
  shows "g x = last (r # as)"
  using assms
proof (induction as arbitrary: r)
  case Nil
  then show ?case by auto
next
  case (Cons a as)
  then show ?case by auto
qed

lemma sym_ring_distinct: "sym_ring f g r xs \<Longrightarrow> distinct xs"
  unfolding sym_ring_def using trail_distinct by blast

lemma sym_ring_neighbours:
  assumes "sym_ring f g r xs" "x \<in> set xs"
  shows "g x \<in> set (r # xs)" "f x \<in> set (r # xs)" "g x \<noteq> x" "f x \<noteq> x" "f (g x) = x" "g (f x) = x"
proof -
  obtain as bs where ab: "xs = as @ x # bs" using assms(2) by (auto simp: in_set_conv_decomp)
  have t: "trail f r as x" "trail f x bs r" and n: "r \<notin> set xs"
    and s: "\<forall>u \<in> set (r # xs). g (f u) = u \<and> f (g u) = u"
    using assms(1) unfolding sym_ring_def ab trail_append by simp_all
  have d: "distinct xs" using sym_ring_distinct [OF assms(1)] .
  have p: "g x = last (r # as)" using trail_last [OF t(1), of g] s unfolding ab by auto
  show "g x \<in> set (r # xs)" unfolding p ab using last_in_set [of "r # as"] by auto
  show "g x \<noteq> x" unfolding p using last_in_set [of "r # as"] d n unfolding ab by auto
  have q: "f x = hd (bs @ [r])" using t(2) by (cases bs) auto
  show "f x \<in> set (r # xs)" unfolding q ab by (cases bs) auto
  show "f x \<noteq> x" unfolding q using d n unfolding ab by (cases bs) auto
  show "f (g x) = x" "g (f x) = x" using s assms(2) by auto
qed

lemma sym_ring_remove:
  assumes "sym_ring f g r xs" "x \<in> set xs"
  shows "sym_ring (f(g x := f x)) (g(f x := g x)) r (filter (\<lambda>u. u \<noteq> x) xs)"
proof -
  obtain as bs where ab: "xs = as @ x # bs" using assms(2) by (auto simp: in_set_conv_decomp)
  have t: "trail f r as x" "trail f x bs r" and n: "r \<notin> set xs"
    and s: "\<forall>u \<in> set (r # xs). g (f u) = u \<and> f (g u) = u"
    using assms(1) unfolding sym_ring_def ab trail_append by simp_all
  have d: "distinct xs" using sym_ring_distinct [OF assms(1)] .
  have "filter (\<lambda>u. u \<noteq> x) as = as" "filter (\<lambda>u. u \<noteq> x) bs = bs"
    using d unfolding ab by (auto simp: filter_id_conv)
  then have fl: "filter (\<lambda>u. u \<noteq> x) xs = as @ bs"
    unfolding ab by simp
  let ?p = "g x" and ?q = "f x"
  let ?f = "f(?p := ?q)" and ?g = "g(?q := ?p)"
  have p: "?p = last (r # as)" using trail_last [OF t(1), of g] s unfolding ab by auto
  have pin: "?p \<in> set (r # as)" unfolding p using last_in_set [of "r # as"] by simp
  have pb: "?p \<notin> set bs" using pin d n unfolding ab by auto
  have ta: "trail ?f r as ?q"
    using trail_redirect_last [OF t(1), of ?q] n d unfolding ab p by simp
  have tr: "trail ?f r (as @ bs) r"
  proof (cases bs)
    case Nil
    then show ?thesis using ta t(2) by simp
  next
    case (Cons b bs')
    have "trail f b bs' r" and qb: "?q = b" using t(2) Cons by simp_all
    moreover have "\<And>u. u \<in> set (b # bs') \<Longrightarrow> ?f u = f u" using pb Cons by auto
    ultimately have "trail ?f b bs' r"
      using trail_cong [of b bs' ?f f r] by blast
    then show ?thesis using ta qb Cons by (simp add: trail_append)
  qed
  have sy: "\<forall>u \<in> set (r # as @ bs). ?g (?f u) = u \<and> ?f (?g u) = u"
  proof
    fix u assume u: "u \<in> set (r # as @ bs)"
    then have ux: "u \<noteq> x" and uin: "u \<in> set (r # xs)" using d n assms(2) unfolding ab by auto
    have xin: "x \<in> set (r # xs)" using assms(2) by simp
    have su: "g (f u) = u" "f (g u) = u" and sx: "g (f x) = x" "f (g x) = x"
      using s uin xin by blast+
    have a: "?g (?f u) = u"
    proof (cases "u = ?p")
      case True
      then show ?thesis by simp
    next
      case False
      have "f u \<noteq> f x" using su(1) sx(1) ux by metis
      then show ?thesis using False su(1) by simp
    qed
    have b: "?f (?g u) = u"
    proof (cases "u = ?q")
      case True
      then show ?thesis by simp
    next
      case False
      have "g u \<noteq> g x" using su(2) sx(2) ux by metis
      then show ?thesis using False su(2) by simp
    qed
    show "?g (?f u) = u \<and> ?f (?g u) = u" using a b by blast
  qed
  show ?thesis
    unfolding sym_ring_def fl using tr sy n unfolding ab by simp
qed

lemma sym_ring_frame:
  assumes "sym_ring f g r xs" "p \<notin> set (r # xs)" "q \<notin> set (r # xs)"
  shows "sym_ring (f(p := a)) (g(q := b)) r xs"
proof -
  have "\<And>u. u \<in> set (r # xs) \<Longrightarrow> (f(p := a)) u = f u" using assms(2) by auto
  then have "trail (f(p := a)) r xs r = trail f r xs r" by (rule trail_cong)
  then have "trail (f(p := a)) r xs r"
    using assms(1) unfolding sym_ring_def by blast
  moreover have "\<forall>u \<in> set (r # xs). (g(q := b)) ((f(p := a)) u) = u \<and> (f(p := a)) ((g(q := b)) u) = u"
  proof
    fix u assume u: "u \<in> set (r # xs)"
    then have s: "g (f u) = u" "f (g u) = u" using assms(1) unfolding sym_ring_def by blast+
    have "u \<noteq> p" "u \<noteq> q" using u assms(2,3) by auto
    moreover have "f u \<noteq> q" "g u \<noteq> p"
    proof -
      have "f u \<in> set (r # xs)"
      proof (cases "u = r")
        case True
        then show ?thesis using assms(1) unfolding sym_ring_def by (cases xs) auto
      next
        case False
        then show ?thesis using sym_ring_neighbours(2) [OF assms(1)] u by auto
      qed
      then show "f u \<noteq> q" using assms(3) by auto
      have "g u \<in> set (r # xs)"
      proof (cases "u = r")
        case True
        have "trail f r xs r" using assms(1) unfolding sym_ring_def by simp
        then have "g r = last (r # xs)"
          using trail_last [of f r xs r g] assms(1) unfolding sym_ring_def by blast
        then show ?thesis using True last_in_set [of "r # xs"] by simp
      next
        case False
        then show ?thesis using sym_ring_neighbours(1) [OF assms(1)] u by auto
      qed
      then show "g u \<noteq> p" using assms(2) by auto
    qed
    ultimately show "(g(q := b)) ((f(p := a)) u) = u \<and> (f(p := a)) ((g(q := b)) u) = u"
      using s by simp
  qed
  ultimately show ?thesis using assms(1) unfolding sym_ring_def by simp
qed

subsection \<open>The columns while nodes are excised\<close>

lemma cover_node_rings:
  assumes H: "\<forall>h' \<in> H. sym_ring (down t) (up t) h' (cols h')
                    \<and> (\<forall>x \<in> set (h' # cols h'). header t x = h')"
    and j: "header t j \<in> H" "j \<in> set (cols (header t j))"
  shows "\<forall>h' \<in> H. sym_ring (down (cover_node j t)) (up (cover_node j t)) h'
                       (filter (\<lambda>u. u \<noteq> j) (cols h'))
                    \<and> (\<forall>x \<in> set (h' # filter (\<lambda>u. u \<noteq> j) (cols h')).
                          header (cover_node j t) x = h')"
proof
  fix h' assume h': "h' \<in> H"
  let ?hj = "header t j"
  have rj: "sym_ring (down t) (up t) ?hj (cols ?hj)"
    and hj: "\<forall>x \<in> set (?hj # cols ?hj). header t x = ?hj" using H j(1) by blast+
  have r': "sym_ring (down t) (up t) h' (cols h')"
    and hh: "\<forall>x \<in> set (h' # cols h'). header t x = h'" using H h' by blast+
  have hdr: "\<forall>x \<in> set (h' # filter (\<lambda>u. u \<noteq> j) (cols h')). header (cover_node j t) x = h'"
    using hh by (simp add: cover_node_fields)
  have "sym_ring (down (cover_node j t)) (up (cover_node j t)) h'
          (filter (\<lambda>u. u \<noteq> j) (cols h'))"
  proof (cases "h' = ?hj")
    case True
    show ?thesis
      unfolding cover_node_fields True using sym_ring_remove [OF rj j(2)] .
  next
    case False
    have "up t j \<in> set (?hj # cols ?hj)" "down t j \<in> set (?hj # cols ?hj)"
      using sym_ring_neighbours(1,2) [OF rj j(2)] by simp_all
    then have "header t (up t j) = ?hj" "header t (down t j) = ?hj" using hj by blast+
    then have out: "up t j \<notin> set (h' # cols h')" "down t j \<notin> set (h' # cols h')"
      using hh False by metis+
    have "j \<notin> set (cols h')" using hh hj j(2) False by (metis list.set_intros(2))
    then have "filter (\<lambda>u. u \<noteq> j) (cols h') = cols h'" by (auto simp: filter_id_conv)
    then show ?thesis
      unfolding cover_node_fields using sym_ring_frame [OF r' out] by simp
  qed
  then show "sym_ring (down (cover_node j t)) (up (cover_node j t)) h'
                       (filter (\<lambda>u. u \<noteq> j) (cols h'))
                    \<and> (\<forall>x \<in> set (h' # filter (\<lambda>u. u \<noteq> j) (cols h')).
                          header (cover_node j t) x = h')"
    using hdr by blast
qed

lemma fold_cover_rings:
  assumes "\<forall>h' \<in> H. sym_ring (down t) (up t) h' (cols h')
                    \<and> (\<forall>x \<in> set (h' # cols h'). header t x = h')"
    and "distinct js" "\<forall>j \<in> set js. header t j \<in> H \<and> j \<in> set (cols (header t j))"
  shows "\<forall>h' \<in> H. sym_ring (down (fold cover_node js t)) (up (fold cover_node js t)) h'
                       (filter (\<lambda>u. u \<notin> set js) (cols h'))"
  using assms
proof (induction js arbitrary: t cols)
  case Nil
  then show ?case by simp
next
  case (Cons j js)
  let ?t = "cover_node j t"
  let ?cols = "\<lambda>h'. filter (\<lambda>u. u \<noteq> j) (cols h')"
  have a: "\<forall>h' \<in> H. sym_ring (down ?t) (up ?t) h' (?cols h')
                    \<and> (\<forall>x \<in> set (h' # ?cols h'). header ?t x = h')"
    using cover_node_rings [of H t cols j] Cons.prems(1,3) by simp
  have b: "distinct js" using Cons.prems(2) by simp
  have c: "\<forall>k \<in> set js. header ?t k \<in> H \<and> k \<in> set (?cols (header ?t k))"
    using Cons.prems(2,3) by (auto simp: cover_node_fields)
  have "\<forall>h' \<in> H. sym_ring (down (fold cover_node js ?t)) (up (fold cover_node js ?t)) h'
                       (filter (\<lambda>u. u \<notin> set js) (?cols h'))"
    by (rule Cons.IH [OF a b c])
  moreover have "\<And>h'. filter (\<lambda>u. u \<notin> set js) (?cols h')
                    = filter (\<lambda>u. u \<notin> set (j # js)) (cols h')"
    by (auto intro: filter_cong)
  ultimately show ?case by simp
qed

subsection \<open>Rows as sets\<close>

lemma row_of_rotation:
  assumes "valid C N s" "is_nd N i" "j \<in> set (row_of s i)"
  shows "\<exists>as bs. row_of s i = as @ j # bs \<and> row_of s j = bs @ i # as"
proof -
  note r = valid_row [OF assms(1,2)]
  obtain as bs where ab: "row_of s i = as @ j # bs"
    using assms(3) by (auto simp: in_set_conv_decomp)
  have d: "distinct (row_of s i)" using trail_distinct [OF r(1,2)] .
  have "trail (right s) i as j" "trail (right s) j bs i"
    using r(1) unfolding ab trail_append by simp_all
  then have t: "trail (right s) j (bs @ i # as) j" by (simp add: trail_append)
  have n: "j \<notin> set (bs @ i # as)" using d r(2) unfolding ab by auto
  have "walk (right s) j j = Some (bs @ i # as)" using t n by (simp add: walk_trail)
  then have "row_of s j = bs @ i # as" by (simp add: row_of_def)
  then show ?thesis using ab by blast
qed

lemma row_set_eq:
  assumes "valid C N s" "is_nd N i" "j \<in> set (row_of s i)"
  shows "set (j # row_of s j) = set (i # row_of s i)"
proof -
  obtain as bs where "row_of s i = as @ j # bs" "row_of s j = bs @ i # as"
    using row_of_rotation [OF assms] by blast
  then show ?thesis by auto
qed

subsection \<open>The state after a cover\<close>

lemma typedI:
  assumes "is_top C (left s Root)" "is_top C (right s Root)"
    and "\<And>c. c < C \<Longrightarrow> header s (Hdr c) = Hdr c
             \<and> is_top C (left s (Hdr c)) \<and> is_top C (right s (Hdr c))
             \<and> vertical_ok C N s (Hdr c)"
    and "\<And>i. i < N \<Longrightarrow> is_nd N (left s (Nd i)) \<and> is_nd N (right s (Nd i))
             \<and> left s (right s (Nd i)) = Nd i \<and> right s (left s (Nd i)) = Nd i
             \<and> is_hdr C (header s (Nd i))
             \<and> vertical_ok C N s (Nd i)"
  shows "typed C N s"
  unfolding typed_def using assms by simp

lemma typed_root: "typed C N s \<Longrightarrow> is_top C (left s Root) \<and> is_top C (right s Root)"
  by (simp add: typed_def)

lemma validI:
  assumes "typed C N s"
    and "\<And>i. i < N \<Longrightarrow> walk (right s) (Nd i) (Nd i) \<noteq> None
             \<and> distinct (map (header s) (Nd i # row_of s (Nd i)))"
    and "walk (right s) Root Root \<noteq> None"
    and "\<forall>h \<in> set (headers_of s). is_hdr C h"
    and "\<forall>x \<in> set (Root # headers_of s). left s (right s x) = x \<and> right s (left s x) = x"
    and "\<forall>h \<in> set (headers_of s).
             walk (down s) h h \<noteq> None
             \<and> (\<forall>x \<in> set (h # column_of s h). up s (down s x) = x \<and> down s (up s x) = x)
             \<and> (\<forall>i \<in> set (column_of s h). \<forall>j \<in> set (row_of s i).
                   header s j \<in> set (headers_of s) \<and> j \<in> set (column_of s (header s j)))"
  shows "valid C N s"
proof -
  have "\<forall>i \<in> set [0 ..< N]. walk (right s) (Nd i) (Nd i) \<noteq> None
             \<and> distinct (map (header s) (Nd i # row_of s (Nd i)))"
    using assms(2) by simp
  then show ?thesis
    unfolding valid_def using assms(1,3,4,5,6) by (intro conjI)
qed

lemma covered_fields:
  assumes "valid C N s" "h \<in> set (headers_of s)"
  shows "vlocal C N (covered s h)"
    and "header (covered s h) = header s"
    and "right (covered s h) = (right s)(left s h := right s h)"
    and "left (covered s h) = (left s)(right s h := left s h)"
    and "row_id (covered s h) = row_id s"
    and "col_id (covered s h) = col_id s"
proof -
  let ?s0 = "remove_lr h s"
  note ty = valid_typed [OF assms(1)]
  note cn = covered_nodes_cells [OF assms]
  have v0: "vlocal C N ?s0"
    using typed_vlocal [OF ty] vlocal_cong [of ?s0 s C N] by (simp add: remove_lr_fields)
  have j0: "\<forall>j \<in> set (covered_nodes s h). is_cell C N j \<and> header ?s0 j \<noteq> h"
    using cn by (simp add: is_cell_def remove_lr_fields)
  note fr = fold_cover_node_frame [OF v0 j0]
  show "vlocal C N (covered s h)" "header (covered s h) = header s"
    "right (covered s h) = (right s)(left s h := right s h)"
    "left (covered s h) = (left s)(right s h := left s h)"
    "row_id (covered s h) = row_id s"
    "col_id (covered s h) = col_id s"
    unfolding covered_def using fr by (simp_all add: remove_lr_fields)
qed

lemma covered_nd_links:
  assumes "valid C N s" "h \<in> set (headers_of s)" "is_nd N x"
  shows "right (covered s h) x = right s x" "left (covered s h) x = left s x"
proof -
  note ty = valid_typed [OF assms(1)]
  have hh: "is_hdr C h" using valid_headers(3) [OF assms(1)] assms(2) by blast
  have "x \<noteq> left s h" "x \<noteq> right s h"
    using typed_hdr(2,3) [OF ty hh] not_top_nd [OF assms(3)] by metis+
  then show "right (covered s h) x = right s x" "left (covered s h) x = left s x"
    by (simp_all add: covered_fields [OF assms(1,2)])
qed

lemma covered_typed:
  assumes "valid C N s" "h \<in> set (headers_of s)"
  shows "typed C N (covered s h)"
proof (rule typedI)
  note ty = valid_typed [OF assms(1)]
  note cf = covered_fields [OF assms]
  have hh: "is_hdr C h" using valid_headers(3) [OF assms(1)] assms(2) by blast
  note th = typed_hdr [OF ty hh] and tr = typed_root [OF ty]
  show "is_top C (left (covered s h) Root)" "is_top C (right (covered s h) Root)"
    using th tr by (simp_all add: cf)
  show "header (covered s h) (Hdr c) = Hdr c
             \<and> is_top C (left (covered s h) (Hdr c)) \<and> is_top C (right (covered s h) (Hdr c))
             \<and> vertical_ok C N (covered s h) (Hdr c)" if "c < C" for c
  proof -
    have "is_cell C N (Hdr c)" using that by (simp add: is_cell_def is_hdr_def)
    then have "vertical_ok C N (covered s h) (Hdr c)" using cf(1) by (simp add: vlocal_def)
    moreover note a = typed_at_hdr [OF ty that]
    have "is_top C (left (covered s h) (Hdr c))"
      unfolding cf fun_upd_def using a th(2) by (cases "Hdr c = right s h") simp_all
    moreover have "is_top C (right (covered s h) (Hdr c))"
      unfolding cf fun_upd_def using a th(3) by (cases "Hdr c = left s h") simp_all
    moreover have "header (covered s h) (Hdr c) = Hdr c" using a by (simp add: cf(2))
    ultimately show ?thesis by (intro conjI)
  qed
  show "is_nd N (left (covered s h) (Nd i)) \<and> is_nd N (right (covered s h) (Nd i))
             \<and> left (covered s h) (right (covered s h) (Nd i)) = Nd i
             \<and> right (covered s h) (left (covered s h) (Nd i)) = Nd i
             \<and> is_hdr C (header (covered s h) (Nd i))
             \<and> vertical_ok C N (covered s h) (Nd i)" if "i < N" for i
  proof -
    have nd: "is_nd N (Nd i)" using that by (simp add: is_nd_def)
    then have "is_cell C N (Nd i)" by (simp add: is_cell_def)
    then have v: "vertical_ok C N (covered s h) (Nd i)" using cf(1) by (simp add: vlocal_def)
    note a = typed_at_nd [OF ty that]
    have l: "is_nd N (left s (Nd i))" "is_nd N (right s (Nd i))" using a by simp_all
    show ?thesis
      using a v covered_nd_links [OF assms nd] covered_nd_links [OF assms l(1)]
        covered_nd_links [OF assms l(2)] by (simp add: cf(2))
  qed
qed

lemma covered_row:
  assumes "valid C N s" "h \<in> set (headers_of s)" "is_nd N x"
  shows "walk (right (covered s h)) x x = Some (row_of s x)" "row_of (covered s h) x = row_of s x"
proof -
  note r = valid_row [OF assms(1,3)]
  have "\<And>u. u \<in> set (x # row_of s x) \<Longrightarrow> right (covered s h) u = right s u"
    using covered_nd_links(1) [OF assms(1,2)] assms(3) r(4) by auto
  then have "trail (right (covered s h)) x (row_of s x) x = trail (right s) x (row_of s x) x"
    by (rule trail_cong)
  then show w: "walk (right (covered s h)) x x = Some (row_of s x)"
    using r(1,2) by (simp add: walk_trail)
  show "row_of (covered s h) x = row_of s x"
    unfolding row_of_def [of "covered s h"] w by simp
qed

lemma valid_header_ring:
  assumes "valid C N s"
  shows "sym_ring (right s) (left s) Root (headers_of s)"
  unfolding sym_ring_def using valid_headers [OF assms] by blast

lemma valid_column_ring:
  assumes "valid C N s" "h \<in> set (headers_of s)"
  shows "sym_ring (down s) (up s) h (column_of s h)"
  unfolding sym_ring_def using valid_column [OF assms] by blast

lemma covered_headers:
  assumes "valid C N s" "h \<in> set (headers_of s)"
  shows "sym_ring (right (covered s h)) (left (covered s h)) Root
           (filter (\<lambda>u. u \<noteq> h) (headers_of s))"
    and "headers_of (covered s h) = filter (\<lambda>u. u \<noteq> h) (headers_of s)"
    and "walk (right (covered s h)) Root Root \<noteq> None"
proof -
  show r: "sym_ring (right (covered s h)) (left (covered s h)) Root
           (filter (\<lambda>u. u \<noteq> h) (headers_of s))"
    unfolding covered_fields [OF assms]
    using sym_ring_remove [OF valid_header_ring [OF assms(1)] assms(2)] .
  then have w: "walk (right (covered s h)) Root Root = Some (filter (\<lambda>u. u \<noteq> h) (headers_of s))"
    unfolding sym_ring_def by (simp add: walk_trail)
  show "headers_of (covered s h) = filter (\<lambda>u. u \<noteq> h) (headers_of s)"
    unfolding headers_of_def [of "covered s h"] w by simp
  show "walk (right (covered s h)) Root Root \<noteq> None" using w by simp
qed

lemma covered_columns:
  assumes "valid C N s" "h \<in> set (headers_of s)" "k \<in> set (headers_of s)" "k \<noteq> h"
  shows "sym_ring (down (covered s h)) (up (covered s h)) k
           (filter (\<lambda>u. u \<notin> set (covered_nodes s h)) (column_of s k))"
    and "column_of (covered s h) k = filter (\<lambda>u. u \<notin> set (covered_nodes s h)) (column_of s k)"
    and "walk (down (covered s h)) k k \<noteq> None"
proof -
  let ?s0 = "remove_lr h s"
  let ?H = "set (filter (\<lambda>u. u \<noteq> h) (headers_of s))"
  note ty = valid_typed [OF assms(1)]
  have a: "\<forall>h' \<in> ?H. sym_ring (down ?s0) (up ?s0) h' (column_of s h')
                    \<and> (\<forall>x \<in> set (h' # column_of s h'). header ?s0 x = h')"
  proof
    fix h' assume "h' \<in> ?H"
    then have l: "h' \<in> set (headers_of s)" by simp
    have "is_hdr C h'" using valid_headers(3) [OF assms(1)] l by blast
    then have "header s h' = h'" using typed_hdr(1) [OF ty] by blast
    then show "sym_ring (down ?s0) (up ?s0) h' (column_of s h')
                    \<and> (\<forall>x \<in> set (h' # column_of s h'). header ?s0 x = h')"
      using valid_column_ring [OF assms(1) l] valid_column(4) [OF assms(1) l]
      by (simp add: remove_lr_fields)
  qed
  have b: "distinct (covered_nodes s h)"
    using column_rows_distinct [OF assms(1,2)] by (simp add: covered_nodes_def)
  have c: "\<forall>j \<in> set (covered_nodes s h). header ?s0 j \<in> ?H
              \<and> j \<in> set (column_of s (header ?s0 j))"
  proof
    fix j assume j: "j \<in> set (covered_nodes s h)"
    then obtain i where i: "i \<in> set (column_of s h)" "j \<in> set (row_of s i)"
      by (auto simp: covered_nodes_def)
    have "header s j \<in> set (headers_of s)" "j \<in> set (column_of s (header s j))"
      using valid_column(5) [OF assms(1,2)] i by blast+
    moreover have "header s j \<noteq> h" using covered_nodes_cells [OF assms(1,2)] j by blast
    ultimately show "header ?s0 j \<in> ?H \<and> j \<in> set (column_of s (header ?s0 j))"
      by (simp add: remove_lr_fields)
  qed
  have "\<forall>h' \<in> ?H. sym_ring (down (covered s h)) (up (covered s h)) h'
                       (filter (\<lambda>u. u \<notin> set (covered_nodes s h)) (column_of s h'))"
    unfolding covered_def by (rule fold_cover_rings [OF a b c])
  then show r: "sym_ring (down (covered s h)) (up (covered s h)) k
           (filter (\<lambda>u. u \<notin> set (covered_nodes s h)) (column_of s k))"
    using assms(3,4) by simp
  then have w: "walk (down (covered s h)) k k
       = Some (filter (\<lambda>u. u \<notin> set (covered_nodes s h)) (column_of s k))"
    unfolding sym_ring_def by (simp add: walk_trail)
  show "column_of (covered s h) k = filter (\<lambda>u. u \<notin> set (covered_nodes s h)) (column_of s k)"
    unfolding column_of_def [of "covered s h"] w by simp
  show "walk (down (covered s h)) k k \<noteq> None" using w by simp
qed

lemma covered_live_rows:
  assumes "valid C N s" "h \<in> set (headers_of s)" "k \<in> set (headers_of s)" "k \<noteq> h"
    "i \<in> set (column_of s k)" "i \<notin> set (covered_nodes s h)" "j \<in> set (row_of s i)"
  shows "header s j \<in> set (headers_of s)" "header s j \<noteq> h"
    "j \<in> set (column_of s (header s j))" "j \<notin> set (covered_nodes s h)"
proof -
  note ck = valid_column [OF assms(1,3)]
  have ni: "is_nd N i" and hi: "header s i = k" using ck(4) assms(5) by blast+
  have nj: "is_nd N j" using valid_row(4) [OF assms(1) ni] assms(7) by blast
  show l: "header s j \<in> set (headers_of s)" and m: "j \<in> set (column_of s (header s j))"
    using ck(5) assms(5,7) by blast+
  have rot: "i \<in> set (row_of s j)" using row_of_rotate [OF assms(1) ni assms(7)] .
  show "header s j \<noteq> h"
  proof
    assume "header s j = h"
    then have "j \<in> set (column_of s h)" using m by simp
    then have "i \<in> set (covered_nodes s h)" using rot by (auto simp: covered_nodes_def)
    then show False using assms(6) by simp
  qed
  show "j \<notin> set (covered_nodes s h)"
  proof
    assume "j \<in> set (covered_nodes s h)"
    then obtain i' where i': "i' \<in> set (column_of s h)" "j \<in> set (row_of s i')"
      by (auto simp: covered_nodes_def)
    have ni': "is_nd N i'" and hi': "header s i' = h"
      using valid_column(4) [OF assms(1,2)] i'(1) by blast+
    have "set (j # row_of s j) = set (i' # row_of s i')"
      using row_set_eq [OF assms(1) ni' i'(2)] .
    then have "i \<in> set (i' # row_of s i')" using rot by auto
    moreover have "i \<noteq> i'" using hi hi' assms(4) by auto
    ultimately have "i \<in> set (row_of s i')" by simp
    then have "i \<in> set (covered_nodes s h)" using i'(1) by (auto simp: covered_nodes_def)
    then show False using assms(6) by simp
  qed
qed

lemma covered_valid:
  assumes "valid C N s" "h \<in> set (headers_of s)"
  shows "valid C N (covered s h)"
proof (rule validI)
  let ?t = "covered s h"
  note hd = covered_headers [OF assms] and cf = covered_fields [OF assms]
  show "typed C N ?t" using covered_typed [OF assms] .
  show "walk (right ?t) (Nd i) (Nd i) \<noteq> None
          \<and> distinct (map (header ?t) (Nd i # row_of ?t (Nd i)))" if "i < N" for i
  proof -
    have nd: "is_nd N (Nd i)" using that by (simp add: is_nd_def)
    show ?thesis
      unfolding covered_row [OF assms nd] cf(2)
      using valid_row(3) [OF assms(1) nd] by simp
  qed
  show "walk (right ?t) Root Root \<noteq> None" using hd(3) .
  show "\<forall>k \<in> set (headers_of ?t). is_hdr C k"
    unfolding hd(2) using valid_headers(3) [OF assms(1)] by simp
  show "\<forall>x \<in> set (Root # headers_of ?t). left ?t (right ?t x) = x \<and> right ?t (left ?t x) = x"
    unfolding hd(2) using hd(1) unfolding sym_ring_def by blast
  show "\<forall>k \<in> set (headers_of ?t).
          walk (down ?t) k k \<noteq> None
          \<and> (\<forall>x \<in> set (k # column_of ?t k). up ?t (down ?t x) = x \<and> down ?t (up ?t x) = x)
          \<and> (\<forall>i \<in> set (column_of ?t k). \<forall>j \<in> set (row_of ?t i).
                header ?t j \<in> set (headers_of ?t) \<and> j \<in> set (column_of ?t (header ?t j)))"
  proof
    fix k assume "k \<in> set (headers_of ?t)"
    then have k: "k \<in> set (headers_of s)" "k \<noteq> h" unfolding hd(2) by simp_all
    note cc = covered_columns [OF assms k]
    have a: "walk (down ?t) k k \<noteq> None" using cc(3) .
    have b: "\<forall>x \<in> set (k # column_of ?t k). up ?t (down ?t x) = x \<and> down ?t (up ?t x) = x"
      unfolding cc(2) using cc(1) unfolding sym_ring_def by blast
    have c: "\<forall>i \<in> set (column_of ?t k). \<forall>j \<in> set (row_of ?t i).
                header ?t j \<in> set (headers_of ?t) \<and> j \<in> set (column_of ?t (header ?t j))"
    proof (intro ballI)
      fix i j assume i: "i \<in> set (column_of ?t k)" and j: "j \<in> set (row_of ?t i)"
      have i': "i \<in> set (column_of s k)" "i \<notin> set (covered_nodes s h)"
        using i unfolding cc(2) by simp_all
      have ni: "is_nd N i" using valid_column(4) [OF assms(1) k(1)] i'(1) by blast
      have j': "j \<in> set (row_of s i)" using j unfolding covered_row(2) [OF assms ni] .
      note lr = covered_live_rows [OF assms k i' j']
      have "column_of ?t (header s j)
              = filter (\<lambda>u. u \<notin> set (covered_nodes s h)) (column_of s (header s j))"
        using covered_columns(2) [OF assms lr(1,2)] .
      then show "header ?t j \<in> set (headers_of ?t) \<and> j \<in> set (column_of ?t (header ?t j))"
        unfolding cf(2) hd(2) using lr by simp
    qed
    show "walk (down ?t) k k \<noteq> None
          \<and> (\<forall>x \<in> set (k # column_of ?t k). up ?t (down ?t x) = x \<and> down ?t (up ?t x) = x)
          \<and> (\<forall>i \<in> set (column_of ?t k). \<forall>j \<in> set (row_of ?t i).
                header ?t j \<in> set (headers_of ?t) \<and> j \<in> set (column_of ?t (header ?t j)))"
      using a b c by (intro conjI)
  qed
qed

section \<open>Every loop of cover and uncover ends\<close>

subsection \<open>What a ranked matrix provides\<close>

lemma ranked_typed: "ranked rk C N s \<Longrightarrow> typed C N s"
  by (simp add: ranked_def)

lemma ranked_at_nd:
  assumes "ranked rk C N s" "i < N"
  shows "walk (right s) (Nd i) (Nd i) \<noteq> None"
    "distinct (map (header s) (Nd i # row_of s (Nd i)))"
    "down s (Nd i) = header s (Nd i) \<or> rk (Nd i) < rk (down s (Nd i))"
    "up s (Nd i) = header s (Nd i) \<or> rk (up s (Nd i)) < rk (Nd i)"
proof -
  have "i \<in> set [0 ..< N]" using assms(2) by simp
  moreover have "\<forall>i \<in> set [0 ..< N].
             walk (right s) (Nd i) (Nd i) \<noteq> None
             \<and> distinct (map (header s) (Nd i # row_of s (Nd i)))
             \<and> (down s (Nd i) = header s (Nd i) \<or> rk (Nd i) < rk (down s (Nd i)))
             \<and> (up s (Nd i) = header s (Nd i) \<or> rk (up s (Nd i)) < rk (Nd i))"
    using assms(1) unfolding ranked_def by (elim conjE)
  ultimately show "walk (right s) (Nd i) (Nd i) \<noteq> None"
    "distinct (map (header s) (Nd i # row_of s (Nd i)))"
    "down s (Nd i) = header s (Nd i) \<or> rk (Nd i) < rk (down s (Nd i))"
    "up s (Nd i) = header s (Nd i) \<or> rk (up s (Nd i)) < rk (Nd i)"
    by blast+
qed

lemma ranked_rank:
  assumes "ranked rk C N s" "is_nd N x"
  shows "down s x = header s x \<or> rk x < rk (down s x)"
    "up s x = header s x \<or> rk (up s x) < rk x"
proof -
  obtain k where k: "k < N" "x = Nd k" using assms(2) by (auto simp: is_nd_iff)
  show "down s x = header s x \<or> rk x < rk (down s x)"
    "up s x = header s x \<or> rk (up s x) < rk x"
    using ranked_at_nd(3,4) [OF assms(1) k(1)] k(2) by simp_all
qed

lemma ranked_row:
  assumes "ranked rk C N s" "is_nd N i"
  shows "trail (right s) i (row_of s i) i" "i \<notin> set (row_of s i)"
    "distinct (map (header s) (i # row_of s i))" "\<forall>j \<in> set (row_of s i). is_nd N j"
proof -
  obtain k where k: "k < N" "i = Nd k" using assms(2) by (auto simp: is_nd_iff)
  have w: "walk (right s) i i \<noteq> None" and d: "distinct (map (header s) (i # row_of s i))"
    using ranked_at_nd(1,2) [OF assms(1) k(1)] k(2) by blast+
  show t: "trail (right s) i (row_of s i) i" and "i \<notin> set (row_of s i)"
    using walk_row_of [OF w] by (simp_all add: walk_trail)
  show "distinct (map (header s) (i # row_of s i))" by (rule d)
  show "\<forall>j \<in> set (row_of s i). is_nd N j"
    using trail_closed [OF t, of "is_nd N"] assms(2)
      typed_nd(2) [OF ranked_typed [OF assms(1)]] by blast
qed

lemma ranked_row_header:
  assumes "ranked rk C N s" "is_nd N i" "j \<in> set (row_of s i)"
  shows "header s j \<noteq> header s i"
proof
  assume "header s j = header s i"
  then have "header s i \<in> header s ` set (row_of s i)" using assms(3) by (metis imageI)
  then show False using ranked_row(3) [OF assms(1,2)] by simp
qed

lemma ranked_row_left:
  assumes "ranked rk C N s" "is_nd N i"
  shows "walk (left s) i i = Some (rev (row_of s i))" "row_left s i = rev (row_of s i)"
    "trail (left s) i (rev (row_of s i)) i"
proof -
  note r = ranked_row [OF assms]
  have nds: "\<And>u. u \<in> set (i # row_of s i) \<Longrightarrow> is_nd N u" using assms(2) r(4) by auto
  show t: "trail (left s) i (rev (row_of s i)) i"
    using trail_rev [OF r(1), of "left s"] typed_nd(3) [OF ranked_typed [OF assms(1)]] nds
    by blast
  then show w: "walk (left s) i i = Some (rev (row_of s i))"
    using r(2) by (simp add: walk_trail)
  show "row_left s i = rev (row_of s i)" unfolding row_left_def w by simp
qed

subsection \<open>The vertical walks end at the header\<close>

lemma climb:
  fixes m :: "ptr \<Rightarrow> nat"
  assumes step: "\<And>x. P x \<Longrightarrow> f x = t \<or> (f x \<noteq> t \<and> P (f x) \<and> m (f x) < m x)"
    and "P x"
  shows "\<exists>zs. trail f x zs t \<and> t \<notin> set zs \<and> (\<forall>z \<in> set zs. P z)"
  using assms(2)
proof (induction "m x" arbitrary: x rule: less_induct)
  case less
  consider "f x = t" | "f x \<noteq> t" "P (f x)" "m (f x) < m x"
    using step [OF less.prems] by blast
  then show ?case
  proof cases
    case 1
    then show ?thesis by (intro exI [of _ "[]"]) simp
  next
    case 2
    obtain zs where "trail f (f x) zs t" "t \<notin> set zs" "\<forall>z \<in> set zs. P z"
      using less.hyps [OF 2(3) 2(2)] by blast
    then show ?thesis using 2 by (intro exI [of _ "f x # zs"]) simp
  qed
qed

lemma rank_bound: "\<exists>B. \<forall>x. is_nd N x \<longrightarrow> rk x \<le> (B::nat)"
proof (intro exI [of _ "Max (rk ` Nd ` {..< N})"] allI impI)
  fix x assume "is_nd N x"
  then have "rk x \<in> rk ` Nd ` {..< N}" by (auto simp: is_nd_iff)
  then show "rk x \<le> Max (rk ` Nd ` {..< N})" by (intro Max_ge) simp_all
qed

lemma ranked_same_column:
  assumes "ranked rk C N s" "is_nd N x"
  shows "down s x = header s x \<or> (is_nd N (down s x) \<and> header s (down s x) = header s x)"
    "up s x = header s x \<or> (is_nd N (up s x) \<and> header s (up s x) = header s x)"
proof -
  note ty = ranked_typed [OF assms(1)]
  have c: "is_cell C N x" using assms(2) by (simp add: is_cell_def)
  note v = vlocalD [OF typed_vlocal [OF ty] c]
  have "y = header s x \<or> is_nd N y" if "is_cell C N y" "header s y = header s x" for y
  proof (cases "is_hdr C y")
    case True
    then show ?thesis using typed_hdr(1) [OF ty True] that(2) by simp
  next
    case False
    then show ?thesis using that(1) by (simp add: is_cell_def)
  qed
  then show "down s x = header s x \<or> (is_nd N (down s x) \<and> header s (down s x) = header s x)"
    "up s x = header s x \<or> (is_nd N (up s x) \<and> header s (up s x) = header s x)"
    using v by blast+
qed

lemma ranked_down:
  assumes "ranked rk C N s" "is_nd N x"
  shows "\<exists>zs. trail (down s) x zs (header s x) \<and> header s x \<notin> set zs
              \<and> (\<forall>z \<in> set zs. is_nd N z \<and> header s z = header s x)"
proof -
  obtain B where B: "\<forall>x. is_nd N x \<longrightarrow> rk x \<le> B" using rank_bound by blast
  let ?h = "header s x"
  let ?P = "\<lambda>z. is_nd N z \<and> header s z = ?h"
  have step: "down s z = ?h \<or> (down s z \<noteq> ?h \<and> ?P (down s z) \<and> B - rk (down s z) < B - rk z)"
    if "?P z" for z
  proof (cases "down s z = ?h")
    case True
    then show ?thesis by simp
  next
    case False
    have nz: "is_nd N z" and hz: "header s z = ?h" using that by simp_all
    have d: "is_nd N (down s z)" "header s (down s z) = ?h"
      using ranked_same_column(1) [OF assms(1) nz] False hz by auto
    have "rk z < rk (down s z)" using ranked_rank(1) [OF assms(1) nz] False hz by simp
    moreover have "rk (down s z) \<le> B" using B d(1) by blast
    ultimately show ?thesis using False d by simp
  qed
  have "?P x" using assms(2) by simp
  then show ?thesis using climb [of ?P "down s" ?h "\<lambda>z. B - rk z" x] step by blast
qed

lemma ranked_up:
  assumes "ranked rk C N s" "is_nd N x"
  shows "\<exists>zs. trail (up s) x zs (header s x) \<and> header s x \<notin> set zs
              \<and> (\<forall>z \<in> set zs. is_nd N z \<and> header s z = header s x)"
proof -
  let ?h = "header s x"
  let ?P = "\<lambda>z. is_nd N z \<and> header s z = ?h"
  have step: "up s z = ?h \<or> (up s z \<noteq> ?h \<and> ?P (up s z) \<and> rk (up s z) < rk z)"
    if "?P z" for z
  proof (cases "up s z = ?h")
    case True
    then show ?thesis by simp
  next
    case False
    have nz: "is_nd N z" and hz: "header s z = ?h" using that by simp_all
    have d: "is_nd N (up s z)" "header s (up s z) = ?h"
      using ranked_same_column(2) [OF assms(1) nz] False hz by auto
    have "rk (up s z) < rk z" using ranked_rank(2) [OF assms(1) nz] False hz by simp
    then show ?thesis using False d by simp
  qed
  have "?P x" using assms(2) by simp
  then show ?thesis using climb [of ?P "up s" ?h rk x] step by blast
qed

lemma header_link:
  assumes "typed C N s" "is_hdr C h" "is_cell C N y" "header s y = h"
  shows "y = h \<or> is_nd N y"
proof (cases "is_hdr C y")
  case True
  then show ?thesis using typed_hdr(1) [OF assms(1) True] assms(4) by simp
next
  case False
  then show ?thesis using assms(3) by (simp add: is_cell_def)
qed

lemma ranked_column:
  assumes "ranked rk C N s" "is_hdr C h"
  shows "trail (down s) h (column_of s h) h" "h \<notin> set (column_of s h)"
    "\<forall>i \<in> set (column_of s h). header s i = h \<and> is_nd N i"
proof -
  note ty = ranked_typed [OF assms(1)]
  have c: "is_cell C N h" using assms(2) by (simp add: is_cell_def)
  have hh: "header s h = h" using typed_hdr(1) [OF ty assms(2)] .
  note v = vlocalD [OF typed_vlocal [OF ty] c]
  have "\<exists>zs. trail (down s) h zs h \<and> h \<notin> set zs \<and> (\<forall>z \<in> set zs. is_nd N z \<and> header s z = h)"
  proof (cases "down s h = h")
    case True
    then show ?thesis by (intro exI [of _ "[]"]) simp
  next
    case False
    have d: "is_nd N (down s h)" "header s (down s h) = h"
      using header_link [OF ty assms(2), of "down s h"] v hh False by auto
    obtain zs where "trail (down s) (down s h) zs h" "h \<notin> set zs"
      "\<forall>z \<in> set zs. is_nd N z \<and> header s z = h"
      using ranked_down [OF assms(1) d(1)] d(2) by auto
    then show ?thesis using False d by (intro exI [of _ "down s h # zs"]) simp
  qed
  then obtain zs where zs: "trail (down s) h zs h" "h \<notin> set zs"
    "\<forall>z \<in> set zs. is_nd N z \<and> header s z = h" by blast
  then have "walk (down s) h h = Some zs" by (simp add: walk_trail)
  then have "column_of s h = zs" by (simp add: column_of_def)
  then show "trail (down s) h (column_of s h) h" "h \<notin> set (column_of s h)"
    "\<forall>i \<in> set (column_of s h). header s i = h \<and> is_nd N i"
    using zs by auto
qed

lemma ranked_column_up:
  assumes "ranked rk C N s" "is_hdr C h"
  shows "trail (up s) h (column_up s h) h" "h \<notin> set (column_up s h)"
    "\<forall>i \<in> set (column_up s h). header s i = h \<and> is_nd N i"
proof -
  note ty = ranked_typed [OF assms(1)]
  have c: "is_cell C N h" using assms(2) by (simp add: is_cell_def)
  have hh: "header s h = h" using typed_hdr(1) [OF ty assms(2)] .
  note v = vlocalD [OF typed_vlocal [OF ty] c]
  have "\<exists>zs. trail (up s) h zs h \<and> h \<notin> set zs \<and> (\<forall>z \<in> set zs. is_nd N z \<and> header s z = h)"
  proof (cases "up s h = h")
    case True
    then show ?thesis by (intro exI [of _ "[]"]) simp
  next
    case False
    have d: "is_nd N (up s h)" "header s (up s h) = h"
      using header_link [OF ty assms(2), of "up s h"] v hh False by auto
    obtain zs where "trail (up s) (up s h) zs h" "h \<notin> set zs"
      "\<forall>z \<in> set zs. is_nd N z \<and> header s z = h"
      using ranked_up [OF assms(1) d(1)] d(2) by auto
    then show ?thesis using False d by (intro exI [of _ "up s h # zs"]) simp
  qed
  then obtain zs where zs: "trail (up s) h zs h" "h \<notin> set zs"
    "\<forall>z \<in> set zs. is_nd N z \<and> header s z = h" by blast
  then have "walk (up s) h h = Some zs" by (simp add: walk_trail)
  then have "column_up s h = zs" by (simp add: column_up_def)
  then show "trail (up s) h (column_up s h) h" "h \<notin> set (column_up s h)"
    "\<forall>i \<in> set (column_up s h). header s i = h \<and> is_nd N i"
    using zs by auto
qed

subsection \<open>Cover and uncover as folds, on any header\<close>

lemma ranked_cover:
  assumes "ranked rk C N s" "is_hdr C h"
  shows "cover h s = Some (covered s h)"
proof -
  let ?s0 = "remove_lr h s"
  note c = ranked_column [OF assms]
  note ty = ranked_typed [OF assms(1)]
  have top: "is_top C (left s h)" using typed_hdr(2) [OF ty assms(2)] .
  have v0: "vlocal C N ?s0"
    using typed_vlocal [OF ty] vlocal_cong [of ?s0 s C N] by (simp add: remove_lr_fields)
  have t0: "trail (down ?s0) h (column_of s h) h" using c(1) by (simp add: remove_lr_fields)
  have h0: "\<forall>i \<in> set (column_of s h). header ?s0 i = h"
    using c(3) by (simp add: remove_lr_fields)
  have r0: "\<forall>i \<in> set (column_of s h). trail (right ?s0) i (row_of s i) i \<and> i \<notin> set (row_of s i)
            \<and> (\<forall>j \<in> set (row_of s i). is_cell C N j \<and> header ?s0 j \<noteq> h)"
  proof
    fix i assume i: "i \<in> set (column_of s h)"
    then have ni: "is_nd N i" and hi: "header s i = h" using c(3) by blast+
    note r = ranked_row [OF assms(1) ni]
    have "\<And>u. u \<in> set (i # row_of s i) \<Longrightarrow> right ?s0 u = right s u"
    proof -
      fix u assume "u \<in> set (i # row_of s i)"
      then have "is_nd N u" using ni r(4) by auto
      then have "u \<noteq> left s h" using top not_top_nd by blast
      then show "right ?s0 u = right s u" by (simp add: remove_lr_fields)
    qed
    then have "trail (right ?s0) i (row_of s i) i"
      using r(1) trail_cong [of i "row_of s i" "right ?s0" "right s" i] by blast
    moreover have "\<forall>j \<in> set (row_of s i). is_cell C N j \<and> header ?s0 j \<noteq> h"
      using r(4) ranked_row_header [OF assms(1) ni] hi
      by (auto simp: is_cell_def remove_lr_fields)
    ultimately show "trail (right ?s0) i (row_of s i) i \<and> i \<notin> set (row_of s i)
            \<and> (\<forall>j \<in> set (row_of s i). is_cell C N j \<and> header ?s0 j \<noteq> h)"
      using r(2) by blast
  qed
  show ?thesis
    unfolding cover_def covered_def covered_nodes_def
    by (rule cover_rows_fold [OF v0 t0 c(2) h0 r0])
qed

lemma ranked_uncover:
  assumes "ranked rk C N s" "is_hdr C h"
  shows "uncover h s = Some (uncovered s h)"
proof -
  note c = ranked_column_up [OF assms]
  note ty = ranked_typed [OF assms(1)]
  have r0: "\<forall>i \<in> set (column_up s h). trail (left s) i (row_left s i) i \<and> i \<notin> set (row_left s i)
            \<and> (\<forall>j \<in> set (row_left s i). is_cell C N j \<and> header s j \<noteq> h)"
  proof
    fix i assume i: "i \<in> set (column_up s h)"
    then have ni: "is_nd N i" and hi: "header s i = h" using c(3) by blast+
    note r = ranked_row [OF assms(1) ni] and l = ranked_row_left [OF assms(1) ni]
    have "\<forall>j \<in> set (row_left s i). is_cell C N j \<and> header s j \<noteq> h"
      unfolding l(2) using r(4) ranked_row_header [OF assms(1) ni] hi
      by (auto simp: is_cell_def)
    then show "trail (left s) i (row_left s i) i \<and> i \<notin> set (row_left s i)
            \<and> (\<forall>j \<in> set (row_left s i). is_cell C N j \<and> header s j \<noteq> h)"
      using l(3) r(2) unfolding l(2) by simp
  qed
  have "uncover_rows h h s = Some (fold uncover_node (concat (map (row_left s) (column_up s h))) s)"
    by (rule uncover_rows_fold [OF typed_vlocal [OF ty] c(1) c(2) _ r0]) (use c(3) in blast)
  then show ?thesis unfolding uncover_def uncovered_def by simp
qed

subsection \<open>The ranking survives every link operation\<close>

lemma rankedI:
  assumes "typed C N t"
    and "\<And>i. i < N \<Longrightarrow>
             walk (right t) (Nd i) (Nd i) \<noteq> None
             \<and> distinct (map (header t) (Nd i # row_of t (Nd i)))
             \<and> (down t (Nd i) = header t (Nd i) \<or> rk (Nd i) < rk (down t (Nd i)))
             \<and> (up t (Nd i) = header t (Nd i) \<or> rk (up t (Nd i)) < rk (Nd i))"
  shows "ranked rk C N t"
  unfolding ranked_def using assms by simp

lemma same_row:
  assumes "ranked rk C N s" "is_nd N x" "\<And>u. is_nd N u \<Longrightarrow> right t u = right s u"
  shows "walk (right t) x x = Some (row_of s x)" "row_of t x = row_of s x"
proof -
  note r = ranked_row [OF assms(1,2)]
  have "\<And>u. u \<in> set (x # row_of s x) \<Longrightarrow> right t u = right s u"
    using assms(2,3) r(4) by auto
  then have "trail (right t) x (row_of s x) x = trail (right s) x (row_of s x) x"
    by (rule trail_cong)
  then show w: "walk (right t) x x = Some (row_of s x)"
    using r(1,2) by (simp add: walk_trail)
  show "row_of t x = row_of s x" unfolding row_of_def [of t] w by simp
qed

lemma ranked_step:
  assumes "ranked rk C N s" "typed C N t" "header t = header s"
    and "\<And>u. is_nd N u \<Longrightarrow> right t u = right s u"
    and "\<And>x. is_nd N x \<Longrightarrow>
            (down t x = header s x \<or> rk x < rk (down t x))
            \<and> (up t x = header s x \<or> rk (up t x) < rk x)"
  shows "ranked rk C N t"
proof (rule rankedI [OF assms(2)])
  fix i assume i: "i < N"
  then have nd: "is_nd N (Nd i)" by (simp add: is_nd_def)
  note sr = same_row [OF assms(1) nd assms(4)]
  show "walk (right t) (Nd i) (Nd i) \<noteq> None
             \<and> distinct (map (header t) (Nd i # row_of t (Nd i)))
             \<and> (down t (Nd i) = header t (Nd i) \<or> rk (Nd i) < rk (down t (Nd i)))
             \<and> (up t (Nd i) = header t (Nd i) \<or> rk (up t (Nd i)) < rk (Nd i))"
    using ranked_row(3) [OF assms(1) nd] assms(5) [OF nd] sr by (simp add: assms(3))
qed

lemma typed_cong:
  assumes "typed C N s" "left t = left s" "right t = right s" "header t = header s"
    "vlocal C N t"
  shows "typed C N t"
proof (rule typedI)
  show "is_top C (left t Root)" "is_top C (right t Root)"
    using typed_root [OF assms(1)] by (simp_all add: assms(2,3))
  show "header t (Hdr c) = Hdr c
             \<and> is_top C (left t (Hdr c)) \<and> is_top C (right t (Hdr c))
             \<and> vertical_ok C N t (Hdr c)" if "c < C" for c
  proof -
    have "is_cell C N (Hdr c)" using that by (simp add: is_cell_def is_hdr_def)
    then have "vertical_ok C N t (Hdr c)" using assms(5) by (simp add: vlocal_def)
    then show ?thesis using typed_at_hdr [OF assms(1) that] by (simp add: assms(2,3,4))
  qed
  show "is_nd N (left t (Nd i)) \<and> is_nd N (right t (Nd i))
             \<and> left t (right t (Nd i)) = Nd i \<and> right t (left t (Nd i)) = Nd i
             \<and> is_hdr C (header t (Nd i))
             \<and> vertical_ok C N t (Nd i)" if "i < N" for i
  proof -
    have "is_cell C N (Nd i)" using that by (simp add: is_cell_def is_nd_def)
    then have "vertical_ok C N t (Nd i)" using assms(5) by (simp add: vlocal_def)
    then show ?thesis using typed_at_nd [OF assms(1) that] by (simp add: assms(2,3,4))
  qed
qed

lemma nd_not_hdr: "is_nd N x \<Longrightarrow> \<not> is_hdr C x"
  by (cases x) (simp_all add: is_nd_def is_hdr_def)

lemma ranked_cover_node:
  assumes "ranked rk C N s" "is_nd N j"
  shows "ranked rk C N (cover_node j s)"
proof (rule ranked_step [OF assms(1)])
  note ty = ranked_typed [OF assms(1)]
  have cj: "is_cell C N j" using assms(2) by (simp add: is_cell_def)
  show "typed C N (cover_node j s)"
    by (rule typed_cong [OF ty])
      (simp_all add: cover_node_fields vlocal_cover_node [OF typed_vlocal [OF ty] cj])
  show "header (cover_node j s) = header s" by (simp add: cover_node_fields)
  show "\<And>u. is_nd N u \<Longrightarrow> right (cover_node j s) u = right s u"
    by (simp add: cover_node_fields)
  show "(down (cover_node j s) x = header s x \<or> rk x < rk (down (cover_node j s) x))
            \<and> (up (cover_node j s) x = header s x \<or> rk (up (cover_node j s) x) < rk x)"
    if x: "is_nd N x" for x
  proof -
    note rx = ranked_rank [OF assms(1) x] and rj = ranked_rank [OF assms]
    note cj = ranked_same_column [OF assms]
    have hj: "is_hdr C (header s j)" using typed_nd(5) [OF ty assms(2)] .
    have a: "down (cover_node j s) x = header s x \<or> rk x < rk (down (cover_node j s) x)"
    proof (cases "x = up s j")
      case True
      then have "up s j \<noteq> header s j" using x hj nd_not_hdr by metis
      then have "rk x < rk j" "header s x = header s j" using rj(2) cj(2) True by auto
      then show ?thesis using rj(1) True by (auto simp: cover_node_fields)
    next
      case False
      then show ?thesis using rx(1) by (simp add: cover_node_fields)
    qed
    have b: "up (cover_node j s) x = header s x \<or> rk (up (cover_node j s) x) < rk x"
    proof (cases "x = down s j")
      case True
      then have "down s j \<noteq> header s j" using x hj nd_not_hdr by metis
      then have "rk j < rk x" "header s x = header s j" using rj(1) cj(1) True by auto
      then show ?thesis using rj(2) True by (auto simp: cover_node_fields)
    next
      case False
      then show ?thesis using rx(2) by (simp add: cover_node_fields)
    qed
    show ?thesis using a b by (intro conjI)
  qed
qed

lemma ranked_uncover_node:
  assumes "ranked rk C N s" "is_nd N j"
  shows "ranked rk C N (uncover_node j s)"
proof (rule ranked_step [OF assms(1)])
  note ty = ranked_typed [OF assms(1)]
  have cj: "is_cell C N j" using assms(2) by (simp add: is_cell_def)
  show "typed C N (uncover_node j s)"
    by (rule typed_cong [OF ty])
      (simp_all add: uncover_node_fields vlocal_uncover_node [OF typed_vlocal [OF ty] cj])
  show "header (uncover_node j s) = header s" by (simp add: uncover_node_fields)
  show "\<And>u. is_nd N u \<Longrightarrow> right (uncover_node j s) u = right s u"
    by (simp add: uncover_node_fields)
  show "(down (uncover_node j s) x = header s x \<or> rk x < rk (down (uncover_node j s) x))
            \<and> (up (uncover_node j s) x = header s x \<or> rk (up (uncover_node j s) x) < rk x)"
    if x: "is_nd N x" for x
  proof -
    note rx = ranked_rank [OF assms(1) x] and rj = ranked_rank [OF assms]
    have hj: "is_hdr C (header s j)" using typed_nd(5) [OF ty assms(2)] .
    have a: "down (uncover_node j s) x = header s x \<or> rk x < rk (down (uncover_node j s) x)"
    proof (cases "x = up s j")
      case True
      then have "up s j \<noteq> header s j" using x hj nd_not_hdr by metis
      then have "rk x < rk j" using rj(2) True by auto
      then show ?thesis using True by (auto simp: uncover_node_fields)
    next
      case False
      then show ?thesis using rx(1) by (simp add: uncover_node_fields)
    qed
    have b: "up (uncover_node j s) x = header s x \<or> rk (up (uncover_node j s) x) < rk x"
    proof (cases "x = down s j")
      case True
      then have "down s j \<noteq> header s j" using x hj nd_not_hdr by metis
      then have "rk j < rk x" using rj(1) True by auto
      then show ?thesis using True by (auto simp: uncover_node_fields)
    next
      case False
      then show ?thesis using rx(2) by (simp add: uncover_node_fields)
    qed
    show ?thesis using a b by (intro conjI)
  qed
qed

lemma typed_relink:
  assumes "typed C N s" "header t = header s" "up t = up s" "down t = down s"
    and "\<And>x. is_nd N x \<Longrightarrow> left t x = left s x \<and> right t x = right s x"
    and "\<And>x. is_top C x \<Longrightarrow> is_top C (left t x) \<and> is_top C (right t x)"
  shows "typed C N t"
proof (rule typedI)
  show "is_top C (left t Root)" "is_top C (right t Root)"
    using assms(6) [of Root] by (simp_all add: is_top_def)
  show "header t (Hdr c) = Hdr c
             \<and> is_top C (left t (Hdr c)) \<and> is_top C (right t (Hdr c))
             \<and> vertical_ok C N t (Hdr c)" if "c < C" for c
  proof -
    have "is_top C (Hdr c)" using that by (simp add: is_top_def is_hdr_def)
    then show ?thesis
      using typed_at_hdr [OF assms(1) that] assms(6) [of "Hdr c"]
      by (simp add: assms(2,3,4) vertical_ok_def)
  qed
  show "is_nd N (left t (Nd i)) \<and> is_nd N (right t (Nd i))
             \<and> left t (right t (Nd i)) = Nd i \<and> right t (left t (Nd i)) = Nd i
             \<and> is_hdr C (header t (Nd i))
             \<and> vertical_ok C N t (Nd i)" if "i < N" for i
  proof -
    have nd: "is_nd N (Nd i)" using that by (simp add: is_nd_def)
    note a = typed_at_nd [OF assms(1) that]
    have l: "is_nd N (left s (Nd i))" "is_nd N (right s (Nd i))" using a by simp_all
    show ?thesis
      using a assms(5) [OF nd] assms(5) [OF l(1)] assms(5) [OF l(2)]
      by (simp add: assms(2,3,4) vertical_ok_def)
  qed
qed

lemma ranked_relink:
  assumes "ranked rk C N s" "header t = header s" "up t = up s" "down t = down s"
    and "\<And>x. is_nd N x \<Longrightarrow> left t x = left s x \<and> right t x = right s x"
    and "\<And>x. is_top C x \<Longrightarrow> is_top C (left t x) \<and> is_top C (right t x)"
  shows "ranked rk C N t"
proof (rule ranked_step [OF assms(1) _ assms(2)])
  show "typed C N t"
    by (rule typed_relink [OF ranked_typed [OF assms(1)] assms(2,3,4,5,6)])
  show "\<And>u. is_nd N u \<Longrightarrow> right t u = right s u" using assms(5) by simp
  show "\<And>x. is_nd N x \<Longrightarrow>
            (down t x = header s x \<or> rk x < rk (down t x))
            \<and> (up t x = header s x \<or> rk (up t x) < rk x)"
    using ranked_rank [OF assms(1)] by (simp add: assms(3,4))
qed

lemma top_links:
  assumes "typed C N s" "is_top C x"
  shows "is_top C (left s x)" "is_top C (right s x)"
proof -
  show "is_top C (left s x)"
  proof (cases "x = Root")
    case True
    then show ?thesis using typed_root [OF assms(1)] by simp
  next
    case False
    then have "is_hdr C x" using assms(2) by (simp add: is_top_def)
    then show ?thesis using typed_hdr(2) [OF assms(1)] by blast
  qed
  show "is_top C (right s x)"
  proof (cases "x = Root")
    case True
    then show ?thesis using typed_root [OF assms(1)] by simp
  next
    case False
    then have "is_hdr C x" using assms(2) by (simp add: is_top_def)
    then show ?thesis using typed_hdr(3) [OF assms(1)] by blast
  qed
qed

lemma ranked_remove_lr:
  assumes "ranked rk C N s" "is_hdr C h"
  shows "ranked rk C N (remove_lr h s)"
proof (rule ranked_relink [OF assms(1)])
  note ty = ranked_typed [OF assms(1)]
  note th = typed_hdr [OF ty assms(2)]
  show "header (remove_lr h s) = header s" "up (remove_lr h s) = up s"
    "down (remove_lr h s) = down s" by (simp_all add: remove_lr_fields)
  show "left (remove_lr h s) x = left s x \<and> right (remove_lr h s) x = right s x"
    if "is_nd N x" for x
  proof -
    have "x \<noteq> left s h" "x \<noteq> right s h" using th(2,3) not_top_nd [OF that] by metis+
    then show ?thesis by (simp add: remove_lr_fields)
  qed
  show "is_top C (left (remove_lr h s) x) \<and> is_top C (right (remove_lr h s) x)"
    if "is_top C x" for x
  proof -
    note tl = top_links [OF ty that]
    have "is_top C (left (remove_lr h s) x)"
      unfolding remove_lr_fields fun_upd_apply using tl th(2) by (cases "x = right s h") simp_all
    moreover have "is_top C (right (remove_lr h s) x)"
      unfolding remove_lr_fields fun_upd_apply using tl th(3) by (cases "x = left s h") simp_all
    ultimately show ?thesis by (intro conjI)
  qed
qed

lemma ranked_insert_lr:
  assumes "ranked rk C N s" "is_hdr C h"
  shows "ranked rk C N (insert_lr h s)"
proof (rule ranked_relink [OF assms(1)])
  note ty = ranked_typed [OF assms(1)]
  note th = typed_hdr [OF ty assms(2)]
  have ht: "is_top C h" using assms(2) by (simp add: is_top_def)
  show "header (insert_lr h s) = header s" "up (insert_lr h s) = up s"
    "down (insert_lr h s) = down s" by (simp_all add: insert_lr_fields)
  show "left (insert_lr h s) x = left s x \<and> right (insert_lr h s) x = right s x"
    if "is_nd N x" for x
  proof -
    have "x \<noteq> left s h" "x \<noteq> right s h" using th(2,3) not_top_nd [OF that] by metis+
    then show ?thesis by (simp add: insert_lr_fields)
  qed
  show "is_top C (left (insert_lr h s) x) \<and> is_top C (right (insert_lr h s) x)"
    if "is_top C x" for x
  proof -
    note tl = top_links [OF ty that]
    have "is_top C (left (insert_lr h s) x)"
      unfolding insert_lr_fields fun_upd_apply using tl ht by (cases "x = right s h") simp_all
    moreover have "is_top C (right (insert_lr h s) x)"
      unfolding insert_lr_fields fun_upd_apply using tl ht by (cases "x = left s h") simp_all
    ultimately show ?thesis by (intro conjI)
  qed
qed

lemma ranked_fold_cover_node:
  "ranked rk C N s \<Longrightarrow> \<forall>j \<in> set js. is_nd N j \<Longrightarrow>
     ranked rk C N (fold cover_node js s)
     \<and> header (fold cover_node js s) = header s
     \<and> left (fold cover_node js s) = left s
     \<and> right (fold cover_node js s) = right s"
proof (induction js arbitrary: s)
  case Nil
  then show ?case by simp
next
  case (Cons j js)
  have "ranked rk C N (cover_node j s)" using Cons.prems by (simp add: ranked_cover_node)
  then show ?case using Cons.IH [of "cover_node j s"] Cons.prems(2)
    by (simp add: cover_node_fields)
qed

lemma ranked_fold_uncover_node:
  "ranked rk C N s \<Longrightarrow> \<forall>j \<in> set js. is_nd N j \<Longrightarrow>
     ranked rk C N (fold uncover_node js s)
     \<and> header (fold uncover_node js s) = header s
     \<and> left (fold uncover_node js s) = left s
     \<and> right (fold uncover_node js s) = right s"
proof (induction js arbitrary: s)
  case Nil
  then show ?case by simp
next
  case (Cons j js)
  have "ranked rk C N (uncover_node j s)" using Cons.prems by (simp add: ranked_uncover_node)
  then show ?case using Cons.IH [of "uncover_node j s"] Cons.prems(2)
    by (simp add: uncover_node_fields)
qed

lemma ranked_covered:
  assumes "ranked rk C N s" "is_hdr C h"
  shows "ranked rk C N (covered s h)" "header (covered s h) = header s"
    "\<And>x. is_nd N x \<Longrightarrow> right (covered s h) x = right s x"
    "\<And>x. is_nd N x \<Longrightarrow> left (covered s h) x = left s x"
proof -
  note ty = ranked_typed [OF assms(1)]
  note th = typed_hdr [OF ty assms(2)]
  note r0 = ranked_remove_lr [OF assms]
  have js: "\<forall>j \<in> set (covered_nodes s h). is_nd N j"
  proof
    fix j assume "j \<in> set (covered_nodes s h)"
    then obtain i where i: "i \<in> set (column_of s h)" "j \<in> set (row_of s i)"
      by (auto simp: covered_nodes_def)
    have "is_nd N i" using ranked_column(3) [OF assms] i(1) by blast
    then show "is_nd N j" using ranked_row(4) [OF assms(1)] i(2) by blast
  qed
  note f = ranked_fold_cover_node [OF r0 js]
  show "ranked rk C N (covered s h)" "header (covered s h) = header s"
    unfolding covered_def using f by (simp_all add: remove_lr_fields)
  show "right (covered s h) x = right s x" if "is_nd N x" for x
  proof -
    have "x \<noteq> left s h" using th(2) not_top_nd [OF that] by metis
    then show ?thesis unfolding covered_def using f by (simp add: remove_lr_fields)
  qed
  show "left (covered s h) x = left s x" if "is_nd N x" for x
  proof -
    have "x \<noteq> right s h" using th(3) not_top_nd [OF that] by metis
    then show ?thesis unfolding covered_def using f by (simp add: remove_lr_fields)
  qed
qed

lemma ranked_uncovered:
  assumes "ranked rk C N s" "is_hdr C h"
  shows "ranked rk C N (uncovered s h)" "header (uncovered s h) = header s"
    "\<And>x. is_nd N x \<Longrightarrow> right (uncovered s h) x = right s x"
    "\<And>x. is_nd N x \<Longrightarrow> left (uncovered s h) x = left s x"
proof -
  let ?J = "concat (map (row_left s) (column_up s h))"
  note ty = ranked_typed [OF assms(1)]
  note th = typed_hdr [OF ty assms(2)]
  have js: "\<forall>j \<in> set ?J. is_nd N j"
  proof
    fix j assume "j \<in> set ?J"
    then obtain i where i: "i \<in> set (column_up s h)" "j \<in> set (row_left s i)" by auto
    have ni: "is_nd N i" using ranked_column_up(3) [OF assms] i(1) by blast
    then show "is_nd N j"
      using ranked_row(4) [OF assms(1) ni] i(2) ranked_row_left(2) [OF assms(1) ni] by simp
  qed
  note f = ranked_fold_uncover_node [OF assms(1) js]
  have r1: "ranked rk C N (fold uncover_node ?J s)" using f by blast
  show "ranked rk C N (uncovered s h)"
    unfolding uncovered_def by (rule ranked_insert_lr [OF r1 assms(2)])
  show "header (uncovered s h) = header s"
    unfolding uncovered_def using f by (simp add: insert_lr_fields)
  show "right (uncovered s h) x = right s x" if "is_nd N x" for x
  proof -
    have "x \<noteq> left s h" using th(2) not_top_nd [OF that] by metis
    then show ?thesis unfolding uncovered_def using f by (simp add: insert_lr_fields)
  qed
  show "left (uncovered s h) x = left s x" if "is_nd N x" for x
  proof -
    have "x \<noteq> right s h" using th(3) not_top_nd [OF that] by metis
    then show ?thesis unfolding uncovered_def using f by (simp add: insert_lr_fields)
  qed
qed

subsection \<open>Covering and uncovering the other columns of a row\<close>

lemma cover_other_fold:
  assumes "ranked rk C N s" "header s = H" "trail (right s) j js i" "i \<notin> set js"
    "\<forall>x \<in> set js. is_nd N x"
  shows "cover_other_from i j s = Some (fold (\<lambda>x t. covered t (H x)) js s)"
  using assms
proof (induction js arbitrary: j s)
  case Nil
  then show ?case by (subst cover_other_from.simps) simp
next
  case (Cons z zs)
  let ?s1 = "covered s (H z)"
  have nz: "is_nd N z" using Cons.prems(5) by simp
  have hz: "is_hdr C (H z)"
    using typed_nd(5) [OF ranked_typed [OF Cons.prems(1)] nz] Cons.prems(2) by simp
  note c = ranked_covered [OF Cons.prems(1) hz]
  have cv: "cover (header s z) s = Some ?s1"
    using ranked_cover [OF Cons.prems(1) hz] Cons.prems(2) by simp
  have "\<And>u. u \<in> set (z # zs) \<Longrightarrow> right ?s1 u = right s u"
    using c(3) Cons.prems(5) by auto
  then have "trail (right ?s1) z zs i = trail (right s) z zs i" by (rule trail_cong)
  then have t: "trail (right ?s1) z zs i" using Cons.prems(3) by simp
  have h1: "header ?s1 = H" using c(2) Cons.prems(2) by simp
  have "cover_other_from i z ?s1 = Some (fold (\<lambda>x t. covered t (H x)) zs ?s1)"
    using Cons.IH [OF c(1) h1 t] Cons.prems(4,5) by simp
  then show ?case
    using Cons.prems(3,4) cv by (subst cover_other_from.simps) auto
qed

lemma uncover_other_fold:
  assumes "ranked rk C N s" "header s = H" "trail (left s) j js i" "i \<notin> set js"
    "\<forall>x \<in> set js. is_nd N x"
  shows "uncover_other_from i j s = Some (fold (\<lambda>x t. uncovered t (H x)) js s)"
  using assms
proof (induction js arbitrary: j s)
  case Nil
  then show ?case by (subst uncover_other_from.simps) simp
next
  case (Cons z zs)
  let ?s1 = "uncovered s (H z)"
  have nz: "is_nd N z" using Cons.prems(5) by simp
  have hz: "is_hdr C (H z)"
    using typed_nd(5) [OF ranked_typed [OF Cons.prems(1)] nz] Cons.prems(2) by simp
  note c = ranked_uncovered [OF Cons.prems(1) hz]
  have cv: "uncover (header s z) s = Some ?s1"
    using ranked_uncover [OF Cons.prems(1) hz] Cons.prems(2) by simp
  have "\<And>u. u \<in> set (z # zs) \<Longrightarrow> left ?s1 u = left s u"
    using c(4) Cons.prems(5) by auto
  then have "trail (left ?s1) z zs i = trail (left s) z zs i" by (rule trail_cong)
  then have t: "trail (left ?s1) z zs i" using Cons.prems(3) by simp
  have h1: "header ?s1 = H" using c(2) Cons.prems(2) by simp
  have "uncover_other_from i z ?s1 = Some (fold (\<lambda>x t. uncovered t (H x)) zs ?s1)"
    using Cons.IH [OF c(1) h1 t] Cons.prems(4,5) by simp
  then show ?case
    using Cons.prems(3,4) cv by (subst uncover_other_from.simps) auto
qed

lemma ranked_fold_covered:
  "ranked rk C N s \<Longrightarrow> \<forall>x \<in> set js. is_hdr C (H x) \<Longrightarrow>
     ranked rk C N (fold (\<lambda>x t. covered t (H x)) js s)
     \<and> header (fold (\<lambda>x t. covered t (H x)) js s) = header s"
proof (induction js arbitrary: s)
  case Nil
  then show ?case by simp
next
  case (Cons j js)
  have hj: "is_hdr C (H j)" using Cons.prems(2) by simp
  note c = ranked_covered(1,2) [OF Cons.prems(1) hj]
  show ?case using Cons.IH [OF c(1)] Cons.prems(2) c(2) by simp
qed

lemma ranked_fold_uncovered:
  "ranked rk C N s \<Longrightarrow> \<forall>x \<in> set js. is_hdr C (H x) \<Longrightarrow>
     ranked rk C N (fold (\<lambda>x t. uncovered t (H x)) js s)
     \<and> header (fold (\<lambda>x t. uncovered t (H x)) js s) = header s"
proof (induction js arbitrary: s)
  case Nil
  then show ?case by simp
next
  case (Cons j js)
  have hj: "is_hdr C (H j)" using Cons.prems(2) by simp
  note c = ranked_uncovered(1,2) [OF Cons.prems(1) hj]
  show ?case using Cons.IH [OF c(1)] Cons.prems(2) c(2) by simp
qed

lemma ranked_cover_other:
  assumes "ranked rk C N s" "is_nd N r"
  shows "cover (header s r) s = Some (covered s (header s r))"
    "cover_other_columns r (covered s (header s r)) = Some (forced s r)"
    "ranked rk C N (forced s r)"
proof -
  let ?h = "header s r"
  let ?s1 = "covered s ?h"
  note ty = ranked_typed [OF assms(1)]
  have hh: "is_hdr C ?h" using typed_nd(5) [OF ty assms(2)] .
  note c = ranked_covered [OF assms(1) hh]
  note r = ranked_row [OF assms]
  show "cover ?h s = Some ?s1" using ranked_cover [OF assms(1) hh] .
  have "\<And>u. u \<in> set (r # row_of s r) \<Longrightarrow> right ?s1 u = right s u"
    using c(3) r(4) assms(2) by auto
  then have "trail (right ?s1) r (row_of s r) r = trail (right s) r (row_of s r) r"
    by (rule trail_cong)
  then have t: "trail (right ?s1) r (row_of s r) r" using r(1) by simp
  show "cover_other_columns r ?s1 = Some (forced s r)"
    unfolding cover_other_columns_def forced_def
    by (rule cover_other_fold [OF c(1) c(2) t r(2) r(4)])
  have hs: "\<forall>x \<in> set (row_of s r). is_hdr C (header s x)"
    using r(4) typed_nd(5) [OF ty] by blast
  show "ranked rk C N (forced s r)"
    unfolding forced_def using ranked_fold_covered [OF c(1) hs] by blast
qed

lemma ranked_uncover_other:
  assumes "ranked rk C N s" "is_nd N r"
  shows "uncover_other_columns r s
           = Some (fold (\<lambda>j t. uncovered t (header s j)) (row_left s r) s)"
    "uncover (header s r) (fold (\<lambda>j t. uncovered t (header s j)) (row_left s r) s)
           = Some (unselected s r)"
    "header (fold (\<lambda>j t. uncovered t (header s j)) (row_left s r) s) = header s"
    "ranked rk C N (unselected s r)"
proof -
  let ?s1 = "fold (\<lambda>j t. uncovered t (header s j)) (row_left s r) s"
  note ty = ranked_typed [OF assms(1)]
  have hh: "is_hdr C (header s r)" using typed_nd(5) [OF ty assms(2)] .
  note r = ranked_row [OF assms] and l = ranked_row_left [OF assms]
  have nl: "r \<notin> set (row_left s r)" "\<forall>x \<in> set (row_left s r). is_nd N x"
    "trail (left s) r (row_left s r) r"
    using r(2,4) l(3) unfolding l(2) by simp_all
  show "uncover_other_columns r s = Some ?s1"
    unfolding uncover_other_columns_def
    by (rule uncover_other_fold [OF assms(1) refl nl(3) nl(1) nl(2)])
  have hs: "\<forall>x \<in> set (row_left s r). is_hdr C (header s x)"
    using nl(2) typed_nd(5) [OF ty] by blast
  note f = ranked_fold_uncovered [OF assms(1) hs]
  have r1: "ranked rk C N ?s1" using f by blast
  show "header ?s1 = header s" using f by blast
  show "uncover (header s r) ?s1 = Some (unselected s r)"
    unfolding unselected_def by (rule ranked_uncover [OF r1 hh])
  show "ranked rk C N (unselected s r)"
    unfolding unselected_def by (rule ranked_uncovered(1) [OF r1 hh])
qed

lemma force_row_total:
  assumes "ranked rk C N s" "is_nd N r"
  shows "dlx_force_row r s = (if is_removed_ud r s then Some (- 1, s) else Some (0, forced s r))"
  unfolding dlx_force_row_def
  by (simp add: ranked_cover_other(1,2) [OF assms])

lemma unselect_row_total:
  assumes "ranked rk C N s" "is_nd N r"
  shows "dlx_unselect_row r s
           = (if is_removed_ud r s then Some (0, unselected s r) else Some (- 1, s))"
  unfolding dlx_unselect_row_def
  by (simp add: ranked_uncover_other(1,2,3) [OF assms])

subsection \<open>What a preselection removes from a well-formed matrix\<close>

lemma fold_covered_valid:
  "valid C N t \<Longrightarrow> distinct hs \<Longrightarrow> set hs \<subseteq> set (headers_of t) \<Longrightarrow>
     valid C N (fold (\<lambda>h u. covered u h) hs t)
     \<and> headers_of (fold (\<lambda>h u. covered u h) hs t) = filter (\<lambda>h. h \<notin> set hs) (headers_of t)
     \<and> header (fold (\<lambda>h u. covered u h) hs t) = header t"
proof (induction hs arbitrary: t)
  case Nil
  then show ?case by simp
next
  case (Cons h hs)
  have l: "h \<in> set (headers_of t)" using Cons.prems(3) by simp
  let ?t1 = "covered t h"
  have v: "valid C N ?t1" using covered_valid [OF Cons.prems(1) l] .
  have hd: "headers_of ?t1 = filter (\<lambda>u. u \<noteq> h) (headers_of t)"
    using covered_headers(2) [OF Cons.prems(1) l] .
  have hh: "header ?t1 = header t" using covered_fields(2) [OF Cons.prems(1) l] .
  have sub: "set hs \<subseteq> set (headers_of ?t1)" using Cons.prems(2,3) unfolding hd by auto
  have d: "distinct hs" using Cons.prems(2) by simp
  note ih = Cons.IH [OF v d sub]
  have "filter (\<lambda>h. h \<notin> set hs) (filter (\<lambda>u. u \<noteq> h) (headers_of t))
          = filter (\<lambda>x. x \<notin> set (h # hs)) (headers_of t)"
    by (auto intro: filter_cong)
  then show ?case using ih unfolding hd hh by simp
qed

lemma forced_headers:
  assumes "valid C N s" "is_nd N r" "header s r \<in> set (headers_of s)"
    "r \<in> set (column_of s (header s r))"
  shows "\<not> is_removed_ud r s" "valid C N (forced s r)"
    "headers_of (forced s r)
       = filter (\<lambda>h. h \<notin> header s ` set (r # row_of s r)) (headers_of s)"
proof -
  note c = valid_column [OF assms(1,3)]
  show "\<not> is_removed_ud r s" using c(3) assms(4) by (simp add: is_removed_ud_def)
  let ?hs = "map (header s) (r # row_of s r)"
  have f: "forced s r = fold (\<lambda>h u. covered u h) ?hs s"
    by (simp add: forced_def fold_map comp_def)
  have d: "distinct ?hs" using valid_row(3) [OF assms(1,2)] .
  have "\<forall>j \<in> set (row_of s r). header s j \<in> set (headers_of s)"
    using c(5) assms(4) by blast
  then have sub: "set ?hs \<subseteq> set (headers_of s)" using assms(3) by auto
  note fv = fold_covered_valid [OF assms(1) d sub]
  show "valid C N (forced s r)" unfolding f using fv by blast
  have "headers_of (forced s r) = filter (\<lambda>h. h \<notin> set ?hs) (headers_of s)"
    unfolding f using fv by blast
  then show "headers_of (forced s r)
       = filter (\<lambda>h. h \<notin> header s ` set (r # row_of s r)) (headers_of s)"
    by simp
qed

lemma demo_ranked: "ranked node_index 3 6 demo"
  by code_simp

lemma demo_row_zero:
  "is_nd 6 (Nd 0)" "header demo (Nd 0) = Hdr 0" "row_of demo (Nd 0) = [Nd 1]"
  "column_of demo (Hdr 0) = [Nd 0, Nd 4]" "is_removed_ud (Nd 0) demo = False"
  "header demo (Nd 1) = Hdr 1"
  by code_simp+

lemma demo_covered_one:
  "is_hdr 3 (Hdr 1)" "is_removed_ud (Nd 0) (covered demo (Hdr 1)) = True"
  by code_simp+

text \<open>
  C6. For every data node \<open>r\<close> of a matrix in a state it can be in (\<open>ranked\<close>, with
  any ranking of its nodes), both preselection functions return:
  \<^item> \<open>dlx_force_row(r)\<close> returns \<open>-1\<close> and leaves the state as it is if \<open>r\<close> is
    vertically excised, and otherwise returns 0 after \<open>cover\<close> of the column of \<open>r\<close>
    and \<open>cover_other_columns(r)\<close>, both of which return; the state it leaves is
    \<open>forced s r\<close>;
  \<^item> \<open>dlx_unselect_row(r)\<close> returns \<open>-1\<close> and leaves the state as it is if \<open>r\<close> is
    not vertically excised, and otherwise returns 0 and leaves \<open>unselected s r\<close>;
  \<^item> the states they leave are states the matrix can be in again;
  \<^item> if the state is well-formed and \<open>r\<close> is a node of a live column, then \<open>r\<close> is
    not excised, the state \<open>dlx_force_row\<close> leaves is well-formed, and its live headers
    are those of before without the columns of the nodes of the row of \<open>r\<close>.
\<close>

theorem preselection_total:
  assumes "ranked rk C N s" "is_nd N r"
  shows "dlx_force_row r s = (if is_removed_ud r s then Some (- 1, s) else Some (0, forced s r))
     \<and> dlx_unselect_row r s
         = (if is_removed_ud r s then Some (0, unselected s r) else Some (- 1, s))
     \<and> cover (header s r) s = Some (covered s (header s r))
     \<and> cover_other_columns r (covered s (header s r)) = Some (forced s r)
     \<and> ranked rk C N (forced s r) \<and> ranked rk C N (unselected s r)
     \<and> (valid C N s \<and> header s r \<in> set (headers_of s) \<and> r \<in> set (column_of s (header s r))
          \<longrightarrow> \<not> is_removed_ud r s \<and> valid C N (forced s r)
              \<and> headers_of (forced s r)
                  = filter (\<lambda>h. h \<notin> header s ` set (r # row_of s r)) (headers_of s))"
  using force_row_total [OF assms] unselect_row_total [OF assms] ranked_cover_other [OF assms]
    ranked_uncover_other(4) [OF assms] forced_headers [OF _ assms(2)]
  by (intro conjI impI) blast+

theorem preselection_total_witness:
  "ranked node_index 3 6 demo \<and> is_nd 6 (Nd 0) \<and> valid 3 6 demo
   \<and> header demo (Nd 0) \<in> set (headers_of demo)
   \<and> Nd 0 \<in> set (column_of demo (header demo (Nd 0)))
   \<and> dlx_force_row (Nd 0) demo = Some (0, forced demo (Nd 0))
   \<and> dlx_unselect_row (Nd 0) demo = Some (- 1, demo)
   \<and> headers_of (forced demo (Nd 0)) = [Hdr 2]
   \<and> valid 3 6 (forced demo (Nd 0))
   \<and> ranked node_index 3 6 (covered demo (Hdr 1))
   \<and> dlx_force_row (Nd 0) (covered demo (Hdr 1)) = Some (- 1, covered demo (Hdr 1))
   \<and> dlx_unselect_row (Nd 0) (covered demo (Hdr 1))
        = Some (0, unselected (covered demo (Hdr 1)) (Nd 0))"
proof -
  note r1 = ranked_covered(1) [OF demo_ranked demo_covered_one(1)]
  note t0 = preselection_total [OF demo_ranked demo_row_zero(1)]
  note t1 = preselection_total [OF r1 demo_row_zero(1)]
  have live: "header demo (Nd 0) \<in> set (headers_of demo)"
    "Nd 0 \<in> set (column_of demo (header demo (Nd 0)))"
    by code_simp+
  have a: "dlx_force_row (Nd 0) demo = Some (0, forced demo (Nd 0))"
    "dlx_unselect_row (Nd 0) demo = Some (- 1, demo)"
    using t0 unfolding demo_row_zero(5) if_False by blast+
  have v: "valid 3 6 (forced demo (Nd 0))" using t0 demo_valid live by blast
  have hd: "headers_of (forced demo (Nd 0)) = [Hdr 2]" by code_simp
  have b: "dlx_force_row (Nd 0) (covered demo (Hdr 1)) = Some (- 1, covered demo (Hdr 1))"
    "dlx_unselect_row (Nd 0) (covered demo (Hdr 1))
        = Some (0, unselected (covered demo (Hdr 1)) (Nd 0))"
    using t1 unfolding demo_covered_one(2) if_True by blast+
  show ?thesis
    using demo_ranked demo_row_zero(1) demo_valid live a hd v r1 b by (intro conjI)
qed

section \<open>The reader produces the rows of the text\<close>

lemma segments_ne [simp]: "segments cs \<noteq> []"
  by (induction cs) auto

lemma segments_no_newline: "r \<in> set (segments cs) \<Longrightarrow> CHR 0x0A \<notin> set r"
proof (induction cs arbitrary: r)
  case Nil then show ?case by simp
next
  case (Cons c cs)
  then show ?case
    by (cases "segments cs") (auto split: if_splits)
qed

lemma segments_join:
  "concat (map (\<lambda>r. r @ [CHR 0x0A]) (butlast (segments cs))) @ last (segments cs) = cs"
proof (induction cs)
  case Nil show ?case by simp
next
  case (Cons c cs)
  then show ?case
    by (cases "segments cs"; cases "tl (segments cs)") auto
qed

lemma segments_snoc_nl: "segments (p @ [CHR 0x0A]) = segments p @ [[]]"
  by (induction p) auto

lemma segments_snoc: "c \<noteq> CHR 0x0A \<Longrightarrow> segments (p @ [c]) = butlast (segments p) @ [last (segments p) @ [c]]"
proof (induction p)
  case Nil then show ?case by simp
next
  case (Cons a p)
  then show ?case
    by (cases "segments p"; cases "tl (segments p)") (auto simp: hd_append)
qed

lemma last_segments_Nil: "(last (segments cs) = []) = (cs = [] \<or> last cs = CHR 0x0A)"
proof (induction cs rule: rev_induct)
  case Nil show ?case by simp
next
  case (snoc c cs)
  show ?case by (cases "c = CHR 0x0A") (simp_all add: segments_snoc_nl segments_snoc)
qed

lemma ones_snoc: "ones (r @ [c]) = ones r @ (if c = CHR ''1'' then [length r] else [])"
  by (auto simp: ones_def nth_append intro!: filter_cong)

lemma widest_snoc: "widest (rows @ [r]) = max (length r) (widest rows)"
  by (simp add: widest_def)

lemma col_ind_of_snoc: "col_ind_of (rows @ [r]) = col_ind_of rows @ ones r"
  by (simp add: col_ind_of_def)

lemma row_ptr_of_snoc: "row_ptr_of (rows @ [r]) = row_ptr_of rows @ [length (col_ind_of (rows @ [r]))]"
  by (simp add: row_ptr_of_def)

lemma next_alloc_all: "all_succeed orc \<Longrightarrow> \<exists>orc'. next_alloc orc = (True, orc') \<and> all_succeed orc'"
  by (cases orc) (auto simp: all_succeed_def)

lemma create_good:
  assumes "all_succeed orc" "16 \<le> n" "n \<le> 512"
  shows "\<exists>a orc'. size_t_darray_create n orc = (Some a, orc') \<and> good a [] \<and> all_succeed orc'"
proof -
  obtain o1 where o1: "next_alloc orc = (True, o1)" "all_succeed o1"
    using next_alloc_all [OF assms(1)] by blast
  obtain o2 where o2: "next_alloc o1 = (True, o2)" "all_succeed o2"
    using next_alloc_all [OF o1(2)] by blast
  show ?thesis using o1 o2 assms(2,3)
    by (simp add: size_t_darray_create_def good_def stored_def calloc_block_def sizeof_val_def)
qed

lemma store_good:
  assumes "take n cs = xs" "length xs = n" "n < length cs"
  shows "take (Suc n) (cs[n := v]) = xs @ [v]"
  using assms by (simp add: take_Suc_conv_app_nth)

lemma good_store:
  assumes g: "stored a xs" and len: "length xs < 2 ^ 59" and room: "sz_cur a + 8 \<le> sz_max a"
    and bd: "sz_max a \<le> max 512 (16 * (length xs + 1))"
  shows "\<exists>b. store_cell (data a) (i_next a) v = Inr b
     \<and> good (a\<lparr>data := b, i_next := (i_next a + 1) mod 2 ^ 64,
                sz_cur := (sz_cur a + sizeof_val) mod 2 ^ 64\<rparr>) (xs @ [v])"
proof -
  have i: "i_next a = length xs" and c: "sz_cur a = 8 * length xs"
    and tk: "take (length xs) (cells (data a)) = xs"
    and lc: "length (cells (data a)) = size_bytes (data a) div 8"
    and mx: "sz_max a \<le> size_bytes (data a)" "16 \<le> sz_max a"
    using g by (auto simp: stored_def)
  have inb: "length xs < length (cells (data a))"
    using lc mx(1) room c by simp
  have inb2: "(length xs + 1) * 8 \<le> size_bytes (data a)"
    using mx(1) room c by simp
  have st: "store_cell (data a) (i_next a) v = Inr ((data a)\<lparr>cells := (cells (data a))[length xs := v]\<rparr>)"
    using inb inb2 by (simp add: store_cell_def sizeof_val_def i)
  have m1: "(length xs + 1) mod 2 ^ 64 = length xs + 1"
    using len by simp
  have m2: "(8 * length xs + 8) mod 2 ^ 64 = 8 * length xs + 8"
    using len by simp
  have tk': "take (Suc (length xs)) ((cells (data a))[length xs := v]) = xs @ [v]"
    using store_good [OF tk refl inb] .
  have "good (a\<lparr>data := (data a)\<lparr>cells := (cells (data a))[length xs := v]\<rparr>,
                 i_next := (i_next a + 1) mod 2 ^ 64,
                sz_cur := (sz_cur a + sizeof_val) mod 2 ^ 64\<rparr>) (xs @ [v])"
    unfolding good_def stored_def using tk' lc mx room len bd
    by (simp add: i c sizeof_val_def)
  with st show ?thesis by blast
qed

lemma append_good:
  assumes g: "good a xs" and orc: "all_succeed orc" and len: "length xs < 2 ^ 59"
  shows "\<exists>a' orc'. size_t_darray_append a v orc = Inr (0, a', orc') \<and> good a' (xs @ [v])
           \<and> all_succeed orc'"
proof -
  have c: "sz_cur a = 8 * length xs" and le: "sz_cur a \<le> sz_max a"
    and mx: "16 \<le> sz_max a" "sz_max a \<le> max 512 (16 * length xs)"
    and st: "stored a xs"
    using g by (auto simp: good_def stored_def)
  have b1: "sz_max a < 2 ^ 63" using mx(2) len by simp
  have nowrap: "(sz_max a + 2 ^ 64 - sizeof_val) mod 2 ^ 64 = sz_max a - 8"
    using mx(1) b1 by (simp add: sizeof_val_def mod_if)
  have app: "size_t_darray_append a v orc =
     (let (r, array1, orc1) =
            (if sz_cur a > sz_max a - 8 then size_t_darray_grow a orc else (0, a, orc))
      in if r \<noteq> 0 then Inr (- 1, array1, orc1)
         else case store_cell (data array1) (i_next array1) v of
                Inl f \<Rightarrow> Inl f
              | Inr b \<Rightarrow>
                  Inr (0, array1\<lparr>data := b, i_next := (i_next array1 + 1) mod 2 ^ 64,
                                 sz_cur := (sz_cur array1 + sizeof_val) mod 2 ^ 64\<rparr>, orc1))"
    unfolding size_t_darray_append_def nowrap ..
  show ?thesis
  proof (cases "sz_cur a > sz_max a - 8")
    case False
    then have room: "sz_cur a + 8 \<le> sz_max a" using mx(1) by linarith
    have bd: "sz_max a \<le> max 512 (16 * (length xs + 1))" using mx(2) by auto
    from good_store [OF st len room bd, of v] obtain b where
      b: "store_cell (data a) (i_next a) v = Inr b"
         "good (a\<lparr>data := b, i_next := (i_next a + 1) mod 2 ^ 64,
                sz_cur := (sz_cur a + sizeof_val) mod 2 ^ 64\<rparr>) (xs @ [v])" by blast
    show ?thesis using False b orc
      by (simp add: app)
  next
    case True
    obtain o1 where o1: "next_alloc orc = (True, o1)" "all_succeed o1"
      using next_alloc_all [OF orc] by blast
    define ns where "ns = sz_max a div 2 + sz_max a"
    have ns: "ns > sz_cur a" "sz_cur a + 8 \<le> ns" "ns \<le> max 512 (16 * (length xs + 1))"
      "16 \<le> ns"
      using True le mx c by (auto simp: ns_def)
    have nz: "sz_max a div 2 \<noteq> 0" using mx(1) by simp
    have nover: "\<not> sz_max a div 2 > SIZE_MAX - sz_max a"
      using b1 unfolding SIZE_MAX_def by simp
    have gr: "size_t_darray_grow a orc
        = (0, a\<lparr>sz_max := ns, data := realloc_block (data a) ns\<rparr>, o1)"
      using ns(1) o1(1) nz nover
      by (simp add: size_t_darray_grow_def Let_def ns_def)
    define a1 where "a1 = a\<lparr>sz_max := ns, data := realloc_block (data a) ns\<rparr>"
    have old: "i_next a = length xs" 
      "take (length xs) (cells (data a)) = xs"
      "length (cells (data a)) = size_bytes (data a) div 8"
      "sz_max a \<le> size_bytes (data a)"
      using g by (auto simp: good_def stored_def)
    have lx: "length xs \<le> ns div 8" using ns(2) c by linarith
    have lx2: "length xs \<le> length (cells (data a))" using old(3,4) le c by linarith
    have g1: "stored a1 xs"
      unfolding stored_def a1_def using old c ns mx lx lx2
      by (auto simp add: realloc_block_def sizeof_val_def min_def)
    have bd1: "sz_max a1 \<le> max 512 (16 * (length xs + 1))" using ns(3) by (simp add: a1_def)
    have room: "sz_cur a1 + 8 \<le> sz_max a1" using ns(2) by (simp add: a1_def)
    from good_store [OF g1 len room bd1, of v] obtain b where
      b: "store_cell (data a1) (i_next a1) v = Inr b"
         "good (a1\<lparr>data := b, i_next := (i_next a1 + 1) mod 2 ^ 64,
                sz_cur := (sz_cur a1 + sizeof_val) mod 2 ^ 64\<rparr>) (xs @ [v])" by blast
    show ?thesis using True b o1(2) gr
      by (simp add: app a1_def)
  qed
qed

lemma trim_good:
  assumes g: "good a xs" and orc: "all_succeed orc"
  shows "\<exists>a' orc'. size_t_darray_trim a orc = (0, a', orc') \<and> size_t_darray_export a' = xs
           \<and> size_t_darray_size a' = length xs \<and> all_succeed orc'"
proof -
  obtain o1 where o1: "next_alloc orc = (True, o1)" "all_succeed o1"
    using next_alloc_all [OF orc] by blast
  have old: "i_next a = length xs" "sz_cur a = 8 * length xs"
      "take (length xs) (cells (data a)) = xs"
      "length (cells (data a)) = size_bytes (data a) div 8"
      "sz_max a \<le> size_bytes (data a)" "sz_cur a \<le> sz_max a"
    using g by (auto simp: good_def stored_def)
  have lx: "length xs \<le> length (cells (data a))" using old by simp
  show ?thesis using o1 old lx
    by (simp add: size_t_darray_trim_def size_t_darray_export_def size_t_darray_size_def
        realloc_block_def sizeof_val_def)
qed

lemma length_ones: "length (ones r) \<le> length r"
  unfolding ones_def by (rule order_trans [OF length_filter_le]) simp

lemma length_col_ind_of: "length (col_ind_of rows) \<le> length (concat rows)"
  by (induction rows) (auto simp: col_ind_of_def intro: add_mono length_ones)

lemma length_concat_segments: "length (concat (segments p)) \<le> length p"
proof (induction p)
  case Nil show ?case by simp
next
  case (Cons c p)
  then show ?case by (cases "segments p") auto
qed

lemma length_segments: "length (segments p) \<le> length p + 1"
proof (induction p)
  case Nil show ?case by simp
next
  case (Cons c p)
  then show ?case by (cases "segments p") auto
qed

lemma segments_split: "butlast (segments p) @ [last (segments p)] = segments p"
  by simp

lemma length_pending:
  "length (col_ind_of (butlast (segments p)) @ ones (last (segments p))) \<le> length p"
proof -
  have "col_ind_of (butlast (segments p)) @ ones (last (segments p)) = col_ind_of (segments p)"
    using col_ind_of_snoc [of "butlast (segments p)" "last (segments p)"] by simp
  then show ?thesis
    using length_col_ind_of [of "segments p"] length_concat_segments [of p] by simp
qed

lemma length_last_segment: "length (last (segments p)) \<le> length p"
proof -
  have "concat (segments p) = concat (butlast (segments p)) @ last (segments p)"
    by (subst segments_split [of p, symmetric]) (simp only: concat_append concat.simps append_Nil2)
  then show ?thesis
    using length_concat_segments [of p] by simp
qed

lemma length_row_ptr_of: "length (row_ptr_of rows) = length rows + 1"
  by (simp add: row_ptr_of_def)

lemma length_row_ptr_pending: "length (row_ptr_of (butlast (segments p))) \<le> length p + 1"
  using length_segments [of p] by (simp add: length_row_ptr_of)

lemma append_col_ind_consumed:
  assumes "good (col_ind_darray rd) xs" "all_succeed (alloc rd)" "length xs < 2 ^ 59"
  shows "\<exists>rd'. append_col_ind v rd = Inr rd' \<and> good (col_ind_darray rd') (xs @ [v])
     \<and> all_succeed (alloc rd') \<and> row_ptr_darray rd' = row_ptr_darray rd
     \<and> max_cols rd' = max_cols rd \<and> col rd' = col rd \<and> fl_newline rd' = fl_newline rd"
  using append_good [OF assms, of v] by (auto simp: append_col_ind_def)

lemma append_row_ptr_consumed:
  assumes "good (row_ptr_darray rd) xs" "all_succeed (alloc rd)" "length xs < 2 ^ 59"
  shows "\<exists>rd'. append_row_ptr v rd = Inr rd' \<and> good (row_ptr_darray rd') (xs @ [v])
     \<and> all_succeed (alloc rd') \<and> col_ind_darray rd' = col_ind_darray rd
     \<and> max_cols rd' = max_cols rd \<and> col rd' = col rd \<and> fl_newline rd' = fl_newline rd"
  using append_good [OF assms, of v] by (auto simp: append_row_ptr_def)

lemma consumed_one:
  assumes c: "consumed rd p" and len: "length p < 2 ^ 58"
  shows "\<exists>rd1. append_col_ind (col rd) rd = Inr rd1
     \<and> consumed (rd1\<lparr>col := (col rd + 1) mod 2 ^ 64, fl_newline := False\<rparr>) (p @ [CHR ''1''])"
proof -
  let ?xs = "col_ind_of (butlast (segments p)) @ ones (last (segments p))"
  have g: "good (col_ind_darray rd) ?xs" and a: "all_succeed (alloc rd)"
    using c by (auto simp: consumed_def)
  have l: "length ?xs < 2 ^ 59" using length_pending [of p] len by simp
  from append_col_ind_consumed [OF g a l, of "col rd"] obtain rd1 where
    rd1: "append_col_ind (col rd) rd = Inr rd1" "good (col_ind_darray rd1) (?xs @ [col rd])"
      "all_succeed (alloc rd1)" "row_ptr_darray rd1 = row_ptr_darray rd"
      "max_cols rd1 = max_cols rd" by blast
  have cl: "col rd = length (last (segments p))" using c by (simp add: consumed_def)
  have m: "(col rd + 1) mod 2 ^ 64 = col rd + 1"
    using length_last_segment [of p] len cl by simp
  have "consumed (rd1\<lparr>col := (col rd + 1) mod 2 ^ 64, fl_newline := False\<rparr>) (p @ [CHR ''1''])"
    unfolding consumed_def m using rd1 c cl
    by (simp add: segments_snoc ones_snoc consumed_def)
  with rd1(1) show ?thesis by blast
qed

lemma consumed_zero:
  assumes c: "consumed rd p" and len: "length p < 2 ^ 58"
  shows "consumed (rd\<lparr>col := (col rd + 1) mod 2 ^ 64, fl_newline := False\<rparr>) (p @ [CHR ''0''])"
proof -
  have cl: "col rd = length (last (segments p))" using c by (simp add: consumed_def)
  have m: "(col rd + 1) mod 2 ^ 64 = col rd + 1"
    using length_last_segment [of p] len cl by simp
  show ?thesis
    unfolding consumed_def m using c cl
    by (simp add: segments_snoc ones_snoc consumed_def)
qed

lemma consumed_newline:
  assumes c: "consumed rd p" and len: "length p < 2 ^ 58"
  shows "\<exists>rd1. append_row_ptr (size_t_darray_size (col_ind_darray rd)) rd = Inr rd1
     \<and> consumed (rd1\<lparr>max_cols := (if max_cols rd1 < col rd1 then col rd1 else max_cols rd1),
                      col := 0, fl_newline := True\<rparr>) (p @ [CHR 0x0A])"
proof -
  let ?xs = "row_ptr_of (butlast (segments p))"
  let ?ci = "col_ind_of (butlast (segments p)) @ ones (last (segments p))"
  have g: "good (row_ptr_darray rd) ?xs" and a: "all_succeed (alloc rd)"
    and gc: "good (col_ind_darray rd) ?ci"
    using c by (auto simp: consumed_def)
  have l: "length ?xs < 2 ^ 59" using length_row_ptr_pending [of p] len by simp
  have sz: "size_t_darray_size (col_ind_darray rd) = length ?ci"
    using gc by (simp add: good_def stored_def size_t_darray_size_def)
  from append_row_ptr_consumed [OF g a l, of "length ?ci"] sz obtain rd1 where
    rd1: "append_row_ptr (size_t_darray_size (col_ind_darray rd)) rd = Inr rd1"
      "good (row_ptr_darray rd1) (?xs @ [length ?ci])"
      "all_succeed (alloc rd1)" "col_ind_darray rd1 = col_ind_darray rd"
      "max_cols rd1 = max_cols rd" "col rd1 = col rd" by auto
  have ci: "?ci = col_ind_of (segments p)"
    using col_ind_of_snoc [of "butlast (segments p)" "last (segments p)"] by simp
  have rp: "?xs @ [length ?ci] = row_ptr_of (segments p)"
    using row_ptr_of_snoc [of "butlast (segments p)" "last (segments p)"] ci by simp
  have w: "widest (segments p) = max (length (last (segments p))) (widest (butlast (segments p)))"
    using widest_snoc [of "butlast (segments p)" "last (segments p)"] by simp
  have gci: "good (col_ind_darray rd1) (col_ind_of (segments p))"
    using gc rd1(4) ci by simp
  have grp: "good (row_ptr_darray rd1) (row_ptr_of (segments p))"
    using rd1(2) rp by simp
  have mc: "max_cols rd1 = widest (butlast (segments p))" "col rd1 = length (last (segments p))"
    using c rd1(5,6) by (simp_all add: consumed_def)
  have on: "ones [] = []" by (simp add: ones_def)
  have "consumed (rd1\<lparr>max_cols := (if max_cols rd1 < col rd1 then col rd1 else max_cols rd1),
                      col := 0, fl_newline := True\<rparr>) (p @ [CHR 0x0A])"
    unfolding consumed_def segments_snoc_nl
    using gci grp rd1(3) by (simp add: on w mc max_def)
  with rd1(1) show ?thesis by blast
qed

lemma read_loop_consumed:
  assumes "consumed rd p" "well_formed cs" "length p + length cs < 2 ^ 58"
  shows "\<exists>rd'. read_loop cs rd = Inr (DLXR_ESUCCESS, rd') \<and> consumed rd' (p @ cs)"
  using assms
proof (induction cs arbitrary: rd p)
  case Nil
  then show ?case by simp
next
  case (Cons c cs)
  have len: "length p < 2 ^ 58" and len': "length (p @ [c]) + length cs < 2 ^ 58"
    using Cons.prems(3) by simp_all
  have wf: "well_formed cs" and cc: "c = CHR ''0'' \<or> c = CHR ''1'' \<or> c = CHR 0x0A"
    using Cons.prems(2) by (simp_all add: well_formed_def)
  consider (one) "c = CHR ''1''" | (zero) "c = CHR ''0''" | (nl) "c = CHR 0x0A"
    using cc by blast
  then show ?case
  proof cases
    case one
    from consumed_one [OF Cons.prems(1) len] obtain rd1 where
      rd1: "append_col_ind (col rd) rd = Inr rd1"
        "consumed (rd1\<lparr>col := (col rd + 1) mod 2 ^ 64, fl_newline := False\<rparr>) (p @ [CHR ''1''])"
      by blast
    from Cons.IH [OF rd1(2) wf] len' one obtain rd' where
      "read_loop cs (rd1\<lparr>col := (col rd + 1) mod 2 ^ 64, fl_newline := False\<rparr>)
         = Inr (DLXR_ESUCCESS, rd')" "consumed rd' ((p @ [CHR ''1'']) @ cs)" by auto
    then show ?thesis using rd1(1) one by simp
  next
    case zero
    from Cons.IH [OF consumed_zero [OF Cons.prems(1) len] wf] len' zero obtain rd' where
      "read_loop cs (rd\<lparr>col := (col rd + 1) mod 2 ^ 64, fl_newline := False\<rparr>)
         = Inr (DLXR_ESUCCESS, rd')" "consumed rd' ((p @ [CHR ''0'']) @ cs)" by auto
    then show ?thesis using zero by simp
  next
    case nl
    from consumed_newline [OF Cons.prems(1) len] obtain rd1 where
      rd1: "append_row_ptr (size_t_darray_size (col_ind_darray rd)) rd = Inr rd1"
        "consumed (rd1\<lparr>max_cols := (if max_cols rd1 < col rd1 then col rd1 else max_cols rd1),
                      col := 0, fl_newline := True\<rparr>) (p @ [CHR 0x0A])"
      by blast
    from Cons.IH [OF rd1(2) wf] len' nl obtain rd' where
      "read_loop cs (rd1\<lparr>max_cols := (if max_cols rd1 < col rd1 then col rd1 else max_cols rd1),
                      col := 0, fl_newline := True\<rparr>)
         = Inr (DLXR_ESUCCESS, rd')" "consumed rd' ((p @ [CHR 0x0A]) @ cs)" by auto
    then show ?thesis using rd1(1) nl by simp
  qed
qed

lemma consumed_start:
  assumes "all_succeed orc"
  shows "\<exists>ci rp orc1 orc2 rd0.
     size_t_darray_create 512 orc = (Some ci, orc1) \<and>
     size_t_darray_create 256 orc1 = (Some rp, orc2) \<and>
     append_row_ptr 0 \<lparr> col_ind_darray = ci, row_ptr_darray = rp, max_cols = 0,
                         col = 0, fl_newline = True, alloc = orc2 \<rparr> = Inr rd0 \<and>
     consumed rd0 []"
proof -
  from create_good [OF assms, of 512] obtain ci orc1 where
    ci: "size_t_darray_create 512 orc = (Some ci, orc1)" "good ci []" "all_succeed orc1"
    by auto
  from create_good [OF ci(3), of 256] obtain rp orc2 where
    rp: "size_t_darray_create 256 orc1 = (Some rp, orc2)" "good rp []" "all_succeed orc2"
    by auto
  let ?rd = "\<lparr> col_ind_darray = ci, row_ptr_darray = rp, max_cols = 0,
                col = 0, fl_newline = True, alloc = orc2 \<rparr>"
  have "good (row_ptr_darray ?rd) []" "all_succeed (alloc ?rd)" "length ([]::nat list) < 2 ^ 59"
    using rp by simp_all
  from append_row_ptr_consumed [OF this, of 0] obtain rd0 where
    rd0: "append_row_ptr 0 ?rd = Inr rd0" "good (row_ptr_darray rd0) [0]"
      "all_succeed (alloc rd0)" "col_ind_darray rd0 = ci" "max_cols rd0 = 0" "col rd0 = 0"
      "fl_newline rd0" by auto
  have "consumed rd0 []"
    using rd0 ci(2) by (simp add: consumed_def col_ind_of_def row_ptr_of_def ones_def widest_def)
  with ci(1) rp(1) rd0(1) show ?thesis by blast
qed

lemma at_eof_rows:
  assumes c: "consumed rd cs" and len: "length cs < 2 ^ 58"
  shows "\<exists>rd'. at_eof False rd = Inr (DLXR_ESUCCESS, rd')
     \<and> good (col_ind_darray rd') (col_ind_of (text_rows cs))
     \<and> good (row_ptr_darray rd') (row_ptr_of (text_rows cs))
     \<and> max_cols rd' = widest (text_rows cs) \<and> all_succeed (alloc rd')"
proof (cases "last (segments cs) = []")
  case True
  then have tr: "text_rows cs = butlast (segments cs)"
    by (simp add: text_rows_def last_segments_Nil)
  have on: "ones [] = []" by (simp add: ones_def)
  show ?thesis using c True unfolding tr
    by (simp add: at_eof_def consumed_def on)
next
  case False
  then have tr: "text_rows cs = segments cs"
    by (simp add: text_rows_def last_segments_Nil)
  let ?xs = "row_ptr_of (butlast (segments cs))"
  let ?ci = "col_ind_of (butlast (segments cs)) @ ones (last (segments cs))"
  have g: "good (row_ptr_darray rd) ?xs" and a: "all_succeed (alloc rd)"
    and gc: "good (col_ind_darray rd) ?ci" and nf: "\<not> fl_newline rd"
    using c False by (auto simp: consumed_def)
  have l: "length ?xs < 2 ^ 59" using length_row_ptr_pending [of cs] len by simp
  have sz: "size_t_darray_size (col_ind_darray rd) = length ?ci"
    using gc by (simp add: good_def stored_def size_t_darray_size_def)
  from append_row_ptr_consumed [OF g a l, of "length ?ci"] sz obtain rd1 where
    rd1: "append_row_ptr (size_t_darray_size (col_ind_darray rd)) rd = Inr rd1"
      "good (row_ptr_darray rd1) (?xs @ [length ?ci])"
      "all_succeed (alloc rd1)" "col_ind_darray rd1 = col_ind_darray rd"
      "max_cols rd1 = max_cols rd" "col rd1 = col rd" by auto
  have ci: "?ci = col_ind_of (segments cs)"
    using col_ind_of_snoc [of "butlast (segments cs)" "last (segments cs)"] by simp
  have rp: "?xs @ [length ?ci] = row_ptr_of (segments cs)"
    using row_ptr_of_snoc [of "butlast (segments cs)" "last (segments cs)"] ci by simp
  have w: "widest (segments cs) = max (length (last (segments cs))) (widest (butlast (segments cs)))"
    using widest_snoc [of "butlast (segments cs)" "last (segments cs)"] by simp
  have gci: "good (col_ind_darray rd1) (col_ind_of (segments cs))"
    using gc rd1(4) ci by simp
  have grp: "good (row_ptr_darray rd1) (row_ptr_of (segments cs))"
    using rd1(2) rp by simp
  have mc: "max_cols rd1 = widest (butlast (segments cs))" "col rd1 = length (last (segments cs))"
    using c rd1(5,6) by (simp_all add: consumed_def)
  show ?thesis unfolding tr using nf rd1(1,3) gci grp
    by (simp add: at_eof_def w mc max_def)
qed

lemma trim_both_rows:
  assumes "good (col_ind_darray rd) xs" "good (row_ptr_darray rd) ys" "all_succeed (alloc rd)"
  shows "\<exists>rd'. trim_both rd = (DLXR_ESUCCESS, rd')
     \<and> size_t_darray_export (col_ind_darray rd') = xs
     \<and> size_t_darray_export (row_ptr_darray rd') = ys
     \<and> size_t_darray_size (row_ptr_darray rd') = length ys
     \<and> max_cols rd' = max_cols rd \<and> all_succeed (alloc rd')"
proof -
  from trim_good [OF assms(1,3)] obtain a1 orc1 where
    a1: "size_t_darray_trim (col_ind_darray rd) (alloc rd) = (0, a1, orc1)"
      "size_t_darray_export a1 = xs" "all_succeed orc1" by blast
  from trim_good [OF assms(2) a1(3)] obtain a2 orc2 where
    a2: "size_t_darray_trim (row_ptr_darray rd) orc1 = (0, a2, orc2)"
      "size_t_darray_export a2 = ys" "size_t_darray_size a2 = length ys" "all_succeed orc2"
    by blast
  show ?thesis using a1 a2 by (simp add: trim_both_def DLXR_ESUCCESS_def)
qed

text \<open>
  When every allocation is granted, a well-formed stream of fewer than \<open>2 ^ 58\<close>
  characters, read without I/O error, yields 0 and the CSR matrix of \<open>text_rows\<close>.
\<close>

theorem read_bcsr_rows:
  assumes "well_formed cs" "length cs < 2 ^ 58" "all_succeed orc"
  shows "\<exists>orc'. read_bcsr \<lparr>chars = cs, io_error = False\<rparr> orc =
           Inr (0, Some (\<lparr> row_ptr_size = length (text_rows cs) + 1,
                             col_ind = col_ind_of (text_rows cs),
                             row_ptr = row_ptr_of (text_rows cs) \<rparr>,
                          widest (text_rows cs)), orc')"
proof -
  from consumed_start [OF assms(3)] obtain ci rp orc1 orc2 rd0 where
    s: "size_t_darray_create 512 orc = (Some ci, orc1)"
       "size_t_darray_create 256 orc1 = (Some rp, orc2)"
       "append_row_ptr 0 \<lparr> col_ind_darray = ci, row_ptr_darray = rp, max_cols = 0,
                         col = 0, fl_newline = True, alloc = orc2 \<rparr> = Inr rd0"
       "consumed rd0 []" by blast
  from read_loop_consumed [OF s(4) assms(1)] assms(2) obtain rd1 where
    l: "read_loop cs rd0 = Inr (DLXR_ESUCCESS, rd1)" "consumed rd1 cs" by auto
  from at_eof_rows [OF l(2) assms(2)] obtain rd2 where
    e: "at_eof False rd1 = Inr (DLXR_ESUCCESS, rd2)"
       "good (col_ind_darray rd2) (col_ind_of (text_rows cs))"
       "good (row_ptr_darray rd2) (row_ptr_of (text_rows cs))"
       "max_cols rd2 = widest (text_rows cs)" "all_succeed (alloc rd2)" by blast
  from trim_both_rows [OF e(2,3,5)] obtain rd3 where
    t: "trim_both rd2 = (DLXR_ESUCCESS, rd3)"
       "size_t_darray_export (col_ind_darray rd3) = col_ind_of (text_rows cs)"
       "size_t_darray_export (row_ptr_darray rd3) = row_ptr_of (text_rows cs)"
       "size_t_darray_size (row_ptr_darray rd3) = length (row_ptr_of (text_rows cs))"
       "max_cols rd3 = max_cols rd2" by blast
  show ?thesis
    using s(1-3) l(1) e(1,4) t
    by (simp add: read_bcsr_def length_row_ptr_of DLXR_ESUCCESS_def)
qed

theorem read_bcsr_rows_witness:
  "well_formed [CHR ''1'', CHR 0x0A, CHR ''0'', CHR ''1''] \<and>
   length [CHR ''1'', CHR 0x0A, CHR ''0'', CHR ''1''] < 2 ^ 58 \<and> all_succeed [] \<and>
   (\<exists>orc'. read_bcsr \<lparr>chars = [CHR ''1'', CHR 0x0A, CHR ''0'', CHR ''1''], io_error = False\<rparr> [] =
           Inr (0, Some (\<lparr> row_ptr_size = 3, col_ind = [0, 1], row_ptr = [0, 1, 2] \<rparr>, 2), orc'))"
proof -
  have h: "well_formed [CHR ''1'', CHR 0x0A, CHR ''0'', CHR ''1'']"
    "length [CHR ''1'', CHR 0x0A, CHR ''0'', CHR ''1''] < 2 ^ 58" "all_succeed []"
    by (simp_all add: well_formed_def all_succeed_def)
  have r: "text_rows [CHR ''1'', CHR 0x0A, CHR ''0'', CHR ''1''] = [[CHR ''1''], [CHR ''0'', CHR ''1'']]"
    by (simp add: text_rows_def)
  have o: "ones [CHR ''1''] = [0]" "ones [CHR ''0'', CHR ''1''] = [1]"
    by (simp_all add: ones_def upt_rec [of 0] upt_rec [of 1] upt_rec [of "Suc 0"])
  have v: "col_ind_of [[CHR ''1''], [CHR ''0'', CHR ''1'']] = [0, 1]"
    "row_ptr_of [[CHR ''1''], [CHR ''0'', CHR ''1'']] = [0, 1, 2]"
    "widest [[CHR ''1''], [CHR ''0'', CHR ''1'']] = 2"
    "length [[CHR ''1''], [CHR ''0'', CHR ''1'']] + 1 = 3"
    by (simp_all add: col_ind_of_def row_ptr_of_def widest_def o
        upt_rec [of 0] upt_rec [of 1] upt_rec [of 2] upt_rec [of "Suc 0"])
  show ?thesis
    using h read_bcsr_rows [OF h] unfolding r v by simp
qed

lemma replicate_31:
  "replicate 31 c =
     [c, c, c, c, c, c, c, c, c, c, c, c, c, c, c, c,
      c, c, c, c, c, c, c, c, c, c, c, c, c, c, c]"
  by (simp add: numeral_eq_Suc)

lemma segments_newlines: "segments (replicate n (CHR 0x0A) @ cs) = replicate n [] @ segments cs"
  by (induction n) simp_all

lemma rows_31: "length (text_rows (replicate 31 (CHR 0x0A) @ [CHR ''1''])) = 32"
  by (simp add: text_rows_def segments_newlines)

text \<open>
  C7. The stream of 31 newlines and a final \<open>1\<close> has 32 rows, the last one not
  terminated by a newline. When the fifth allocation request (the \<open>realloc\<close> that
  grows the row-pointer buffer at the end of the stream) is refused, \<open>read_bcsr\<close>
  returns 0 with 32 row pointers, which delimit 31 rows: the column index of the final row
  is stored, the width 1 is counted, and the row itself is missing.
\<close>

theorem final_row_lost:
  "(case read_bcsr \<lparr>chars = replicate 31 (CHR 0x0A) @ [CHR ''1''], io_error = False\<rparr>
           [True, True, True, True, False] of
      Inr (r, Some (csr, n), _) \<Rightarrow> Some (r, row_ptr_size csr, length (col_ind csr), n)
    | _ \<Rightarrow> None)
   = Some (0, 32, 1, 1)
   \<and> length (text_rows (replicate 31 (CHR 0x0A) @ [CHR ''1''])) = 32"
  unfolding replicate_31 rows_31 [unfolded replicate_31]
  by (simp add: read_bcsr_def size_t_darray_create_def size_t_darray_append_def
      size_t_darray_grow_def store_cell_def calloc_block_def realloc_block_def sizeof_val_def
      SIZE_MAX_def append_row_ptr_def append_col_ind_def at_eof_def trim_both_def
      size_t_darray_trim_def size_t_darray_size_def size_t_darray_export_def
      DLXR_ESUCCESS_def DLXR_EALLOC_def DLXR_EDATAERR_def DLXR_EIOERR_def)

end
